theory Spec2Isabelle
  imports Main "HOL-Library.Sublist" "HOL-Library.Word"
begin

section \<open>Data model\<close>

text \<open>
  The \<^verbatim>\<open>Device\<close> struct of \<^verbatim>\<open>main.go\<close>. Go strings are byte sequences, as
  \<^typ>\<open>string\<close> is. \<^verbatim>\<open>Info_Name\<close> is the field the specification calls the canonical name.
\<close>

record Device =
  Name :: string
  Info_Name :: string
  Type :: string

text \<open>
  One element of \<^verbatim>\<open>readSMARTctlDevices(...).Get("devices").Array()\<close>: the three
  fields that \<^verbatim>\<open>scanDevices\<close> reads from it, each as \<^verbatim>\<open>d.Get(key).String()\<close> returns it
  (the empty string when the key is missing). Whatever else the element holds is the
  extension \<open>'e\<close> of the record, in the type \<open>'e scan_entry_scheme\<close>: \<^verbatim>\<open>scanDevices\<close> passes
  the whole element to \<^verbatim>\<open>formatDevices\<close>.
\<close>

record scan_entry =
  name :: string
  info_name :: string
  type :: string

section \<open>Library functions used by the source\<close>

text \<open>
  \<^verbatim>\<open>strings.TrimSpace\<close> removes leading and trailing white space as Unicode defines it.
  On the bytes of a string these are the six ASCII characters and the UTF-8 encodings
  of U+0085, U+00A0, U+1680, U+2000..U+200A, U+2028, U+2029, U+202F, U+205F and U+3000;
  a byte sequence that is no valid encoding decodes to the replacement rune, which is
  not white space.
\<close>

definition spaceRunes :: "string list" where
  "spaceRunes =
    [[CHR 0x09], [CHR 0x0A], [CHR 0x0B], [CHR 0x0C], [CHR 0x0D], [CHR 0x20],
     [CHR 0xC2, CHR 0x85], [CHR 0xC2, CHR 0xA0],
     [CHR 0xE1, CHR 0x9A, CHR 0x80],
     [CHR 0xE2, CHR 0x80, CHR 0x80], [CHR 0xE2, CHR 0x80, CHR 0x81],
     [CHR 0xE2, CHR 0x80, CHR 0x82], [CHR 0xE2, CHR 0x80, CHR 0x83],
     [CHR 0xE2, CHR 0x80, CHR 0x84], [CHR 0xE2, CHR 0x80, CHR 0x85],
     [CHR 0xE2, CHR 0x80, CHR 0x86], [CHR 0xE2, CHR 0x80, CHR 0x87],
     [CHR 0xE2, CHR 0x80, CHR 0x88], [CHR 0xE2, CHR 0x80, CHR 0x89],
     [CHR 0xE2, CHR 0x80, CHR 0x8A],
     [CHR 0xE2, CHR 0x80, CHR 0xA8], [CHR 0xE2, CHR 0x80, CHR 0xA9],
     [CHR 0xE2, CHR 0x80, CHR 0xAF],
     [CHR 0xE2, CHR 0x81, CHR 0x9F],
     [CHR 0xE3, CHR 0x80, CHR 0x80]]"

text \<open>The number of bytes of the white-space rune a string starts with, 0 if it starts with none.\<close>

definition leadingSpace :: "string \<Rightarrow> nat" where
  "leadingSpace s = (case List.find (\<lambda>r. prefix r s) spaceRunes of None \<Rightarrow> 0 | Some r \<Rightarrow> length r)"

text \<open>The same at the end of a string, as \<^verbatim>\<open>utf8.DecodeLastRuneInString\<close> finds it.\<close>

definition trailingSpace :: "string \<Rightarrow> nat" where
  "trailingSpace s = (case List.find (\<lambda>r. suffix r s) spaceRunes of None \<Rightarrow> 0 | Some r \<Rightarrow> length r)"

function TrimLeft :: "string \<Rightarrow> string" where
  "TrimLeft s = (if leadingSpace s = 0 \<or> s = [] then s else TrimLeft (drop (leadingSpace s) s))"
  by pat_completeness auto
termination
  by (relation "measure length") auto

function TrimRight :: "string \<Rightarrow> string" where
  "TrimRight s =
     (if trailingSpace s = 0 \<or> s = [] then s else TrimRight (take (length s - trailingSpace s) s))"
  by pat_completeness auto
termination
  by (relation "measure length") auto

declare TrimLeft.simps [simp del] TrimRight.simps [simp del]

definition TrimSpace :: "string \<Rightarrow> string" where
  "TrimSpace s = TrimRight (TrimLeft s)"

text \<open>
  \<^verbatim>\<open>strings.Contains(s, substr)\<close>: whether \<^verbatim>\<open>substr\<close> occurs in \<^verbatim>\<open>s\<close> as a run of
  consecutive bytes, searched from the left.
\<close>

fun Contains :: "string \<Rightarrow> string \<Rightarrow> bool" where
  "Contains [] substr = (substr = [])"
| "Contains (c # s) substr = (prefix substr (c # s) \<or> Contains s substr)"

section \<open>Device filter\<close>

text \<open>
  A compiled regular expression is modelled by what \<^verbatim>\<open>MatchString\<close> answers on each string.
\<close>

type_synonym regexp = "string \<Rightarrow> bool"

text \<open>
  Modelled from the spec: the type of the filter that \<^verbatim>\<open>newDeviceFilter\<close> returns is
  declared in a file that is not part of the sources at hand. The filter is configured
  with two optional regular expressions, \<^verbatim>\<open>exclude\<close> and \<^verbatim>\<open>include\<close>; \<open>None\<close> is a
  regular expression that is not set.
\<close>

record deviceFilter =
  exclude_re :: "regexp option"
  include_re :: "regexp option"

text \<open>
  Modelled from the spec: the method \<^verbatim>\<open>ignored\<close> of the filter is called by \<^verbatim>\<open>scanDevices\<close>
  (line 161) but defined in a file that is not part of the sources at hand. If \<^verbatim>\<open>exclude\<close>
  is set, a name is ignored when it matches \<^verbatim>\<open>exclude\<close>; if \<^verbatim>\<open>include\<close> is set, a name is
  ignored when it does not match \<^verbatim>\<open>include\<close>; if neither is set, nothing is ignored.
\<close>

definition ignored :: "deviceFilter \<Rightarrow> string \<Rightarrow> bool" where
  "ignored f canonicalName =
     ((case exclude_re f of None \<Rightarrow> False | Some re \<Rightarrow> re canonicalName) \<or>
      (case include_re f of None \<Rightarrow> False | Some re \<Rightarrow> \<not> re canonicalName))"

section \<open>Device discovery\<close>

text \<open>
  \<^verbatim>\<open>scanDevices\<close> calls two functions of the repository whose definitions are not among
  the sources at hand; they are parameters of the model:
  \<^item> \<open>getDiskName\<close>, from the trimmed \<^verbatim>\<open>name\<close> and \<^verbatim>\<open>info_name\<close> of a base-pass entry to
    the \<^verbatim>\<open>Info_Name\<close> of its Device;
  \<^item> \<open>formatDevices\<close>, from a raid-pass entry to the Devices it stands for.
  The two results of \<^verbatim>\<open>readSMARTctlDevices\<close> are the arguments \<open>baseDevices\<close> and
  \<open>raidDevices\<close>, and the filter built from the two flags (the variable \<^verbatim>\<open>filter\<close>) is the argument \<open>flt\<close>.
  Logging is left out.
\<close>

text \<open>The first loop (lines 132 to 147): the state is the map \<^verbatim>\<open>isExists\<close>, a missing key
  reading as false, and the slice \<^verbatim>\<open>scanDevices\<close>.\<close>

fun base_loop ::
  "(string \<Rightarrow> string \<Rightarrow> string) \<Rightarrow> 'e scan_entry_scheme list \<Rightarrow> (string \<Rightarrow> bool) \<times> Device list
     \<Rightarrow> (string \<Rightarrow> bool) \<times> Device list" where
  "base_loop getDiskName [] st = st"
| "base_loop getDiskName (d # ds) (isExists, scanDevices) =
     (let isExists' = isExists(TrimSpace (info_name d) := True);
          deviceName = getDiskName (TrimSpace (name d)) (TrimSpace (info_name d));
          device = \<lparr>Name = name d, Info_Name = deviceName, Type = type d\<rparr>
      in base_loop getDiskName ds (isExists', scanDevices @ [device]))"

text \<open>The second loop (lines 149 to 157).\<close>

fun raid_loop ::
  "('e scan_entry_scheme \<Rightarrow> Device list) \<Rightarrow> (string \<Rightarrow> bool) \<Rightarrow> 'e scan_entry_scheme list \<Rightarrow> Device list
     \<Rightarrow> Device list" where
  "raid_loop formatDevices isExists [] scanDevices = scanDevices"
| "raid_loop formatDevices isExists (d # ds) scanDevices =
     (if isExists (TrimSpace (info_name d))
      then raid_loop formatDevices isExists ds scanDevices
      else raid_loop formatDevices isExists ds (scanDevices @ formatDevices d))"

text \<open>The third loop (lines 159 to 167).\<close>

fun filter_loop :: "deviceFilter \<Rightarrow> Device list \<Rightarrow> Device list \<Rightarrow> Device list" where
  "filter_loop flt [] scanDeviceResult = scanDeviceResult"
| "filter_loop flt (d # ds) scanDeviceResult =
     (if ignored flt (Info_Name d)
      then filter_loop flt ds scanDeviceResult
      else filter_loop flt ds (scanDeviceResult @ [d]))"

text \<open>The candidates: the slice \<^verbatim>\<open>scanDevices\<close> as it is when the third loop starts.\<close>

definition candidates ::
  "(string \<Rightarrow> string \<Rightarrow> string) \<Rightarrow> ('e scan_entry_scheme \<Rightarrow> Device list) \<Rightarrow> 'e scan_entry_scheme list
     \<Rightarrow> 'e scan_entry_scheme list \<Rightarrow> Device list" where
  "candidates getDiskName formatDevices baseDevices raidDevices =
     (case base_loop getDiskName baseDevices (\<lambda>_. False, []) of
        (isExists, scanDevices) \<Rightarrow> raid_loop formatDevices isExists raidDevices scanDevices)"

definition scanDevices ::
  "(string \<Rightarrow> string \<Rightarrow> string) \<Rightarrow> ('e scan_entry_scheme \<Rightarrow> Device list) \<Rightarrow> deviceFilter
     \<Rightarrow> 'e scan_entry_scheme list \<Rightarrow> 'e scan_entry_scheme list \<Rightarrow> Device list" where
  "scanDevices getDiskName formatDevices flt baseDevices raidDevices =
     filter_loop flt (candidates getDiskName formatDevices baseDevices raidDevices) []"

section \<open>Explicit device override\<close>

text \<open>The inner loop of \<^verbatim>\<open>filterDevices\<close> (lines 174 to 180): whether it reaches the
  \<^verbatim>\<open>append\<close> and \<^verbatim>\<open>break\<close>.\<close>

fun filters_hit :: "Device \<Rightarrow> string list \<Rightarrow> bool" where
  "filters_hit d [] = False"
| "filters_hit d (f # filters) =
     (if Contains (Info_Name d) f then True else filters_hit d filters)"

fun filterDevices_loop :: "Device list \<Rightarrow> string list \<Rightarrow> Device list \<Rightarrow> Device list" where
  "filterDevices_loop [] filters filtered = filtered"
| "filterDevices_loop (d # ds) filters filtered =
     filterDevices_loop ds filters (if filters_hit d filters then filtered @ [d] else filtered)"

definition filterDevices :: "Device list \<Rightarrow> string list \<Rightarrow> Device list" where
  "filterDevices devices filters = filterDevices_loop devices filters []"

section \<open>Collection pass\<close>

text \<open>
  What \<^verbatim>\<open>Collect\<close> sends on the channel \<^verbatim>\<open>ch\<close>, in order. The summary metric
  \<^verbatim>\<open>metricDeviceCount\<close> carries \<^verbatim>\<open>float64(len(i.Devices))\<close>, kept here as the length itself.
  The metrics that the collaborators \<^verbatim>\<open>smart.Collect()\<close> and \<^verbatim>\<open>info.Collect()\<close> send are of
  a type \<open>'m\<close> of their own.
\<close>

datatype 'm metric = Metric 'm | DeviceCount nat

text \<open>
  \<^verbatim>\<open>Collect\<close> calls functions of the repository whose definitions are not among the
  sources at hand; they are parameters of the model:
  \<^item> \<open>readData\<close>, the reader of one device. It may answer differently from one call to the
    next, so it takes and returns a reader state \<open>'r\<close>. Its answer is \<open>None\<close> when
    \<^verbatim>\<open>json.Exists()\<close> is false and \<open>Some json\<close> otherwise;
  \<^item> \<open>NewSMARTctlInfo\<close> and \<open>SetJSON\<close>, the value \<^verbatim>\<open>info\<close> and its update, which send
    nothing on the channel;
  \<^item> \<open>smartCollect\<close>, the metrics that \<^verbatim>\<open>NewSMARTctl(i.logger, json, ch).Collect()\<close> sends;
  \<^item> \<open>infoCollect\<close>, the metrics that \<^verbatim>\<open>info.Collect()\<close> sends.
  The loop of lines 65 to 72 has the reader state, \<^verbatim>\<open>info\<close> and the channel as its state.
\<close>

fun collect_loop ::
  "('r \<Rightarrow> Device \<Rightarrow> 'j option \<times> 'r) \<Rightarrow> ('i \<Rightarrow> 'j \<Rightarrow> 'i) \<Rightarrow> ('j \<Rightarrow> 'm list)
     \<Rightarrow> Device list \<Rightarrow> 'r \<times> 'i \<times> 'm metric list \<Rightarrow> 'r \<times> 'i \<times> 'm metric list" where
  "collect_loop readData SetJSON smartCollect [] st = st"
| "collect_loop readData SetJSON smartCollect (device # devices) (r, info, ch) =
     (case readData r device of
        (None, r') \<Rightarrow> collect_loop readData SetJSON smartCollect devices (r', info, ch)
      | (Some json, r') \<Rightarrow>
          collect_loop readData SetJSON smartCollect devices
            (r', SetJSON info json, ch @ map Metric (smartCollect json)))"

definition Collect ::
  "('r \<Rightarrow> Device \<Rightarrow> 'j option \<times> 'r) \<Rightarrow> 'i \<Rightarrow> ('i \<Rightarrow> 'j \<Rightarrow> 'i) \<Rightarrow> ('j \<Rightarrow> 'm list)
     \<Rightarrow> ('i \<Rightarrow> 'm list) \<Rightarrow> Device list \<Rightarrow> 'r \<Rightarrow> 'm metric list \<times> 'r" where
  "Collect readData NewSMARTctlInfo SetJSON smartCollect infoCollect Devices r =
     (case collect_loop readData SetJSON smartCollect Devices (r, NewSMARTctlInfo, []) of
        (r', info, ch) \<Rightarrow>
          (ch @ [DeviceCount (length Devices)] @ map Metric (infoCollect info), r'))"

text \<open>The answers of the reader during one pass, one for each device, in inventory order.\<close>

fun outcomes :: "('r \<Rightarrow> Device \<Rightarrow> 'j option \<times> 'r) \<Rightarrow> 'r \<Rightarrow> Device list \<Rightarrow> 'j option list" where
  "outcomes readData r [] = []"
| "outcomes readData r (device # devices) =
     (case readData r device of (json, r') \<Rightarrow> json # outcomes readData r' devices)"

text \<open>The values of the summary metrics on a channel, in order.\<close>

fun summaries :: "'m metric list \<Rightarrow> nat list" where
  "summaries [] = []"
| "summaries (Metric m # ch) = summaries ch"
| "summaries (DeviceCount n # ch) = n # summaries ch"

section \<open>Startup\<close>

text \<open>
  The part of \<^verbatim>\<open>main\<close> that builds the inventory (lines 201 to 208); \<open>smartctlDevices\<close> is
  the value of the repeatable flag \<^verbatim>\<open>smartctl.device\<close>.
\<close>

definition main_devices ::
  "(string \<Rightarrow> string \<Rightarrow> string) \<Rightarrow> ('e scan_entry_scheme \<Rightarrow> Device list) \<Rightarrow> deviceFilter
     \<Rightarrow> string list \<Rightarrow> 'e scan_entry_scheme list \<Rightarrow> 'e scan_entry_scheme list \<Rightarrow> Device list" where
  "main_devices getDiskName formatDevices flt smartctlDevices baseDevices raidDevices =
     (let devices = scanDevices getDiskName formatDevices flt baseDevices raidDevices
      in if length smartctlDevices > 0 then filterDevices devices smartctlDevices else devices)"

text \<open>
  A \<^verbatim>\<open>time.Duration\<close> is a signed 64-bit count of nanoseconds. The test of line 215,
  \<^verbatim>\<open>*smartctlRescanInterval >= 1*time.Second\<close>, decides whether the goroutine
  \<^verbatim>\<open>RescanForDevices\<close> is started.
\<close>

type_synonym Duration = "64 word"

definition Second :: Duration where
  "Second = 1000000000"

definition rescan_started :: "Duration \<Rightarrow> bool" where
  "rescan_started smartctlRescanInterval = (sint (1 * Second) \<le> sint smartctlRescanInterval)"

section \<open>The collector shared between scrapes and the rescan goroutine\<close>

text \<open>
  After startup the program is the goroutine \<^verbatim>\<open>RescanForDevices\<close>, if it was started, and
  one call of \<^verbatim>\<open>Collect\<close> for each scrape, all on the same collector. A state of the
  program holds the two fields of the collector that they share, \<^verbatim>\<open>Devices\<close> and \<^verbatim>\<open>mutex\<close>,
  and where each of them stands in its code. One step is one of them doing its next
  statement; the runs of the program are the interleavings of such steps.
\<close>

datatype tid = Rescanner | Scrape nat

text \<open>
  Where a call of \<^verbatim>\<open>Collect\<close> stands: before \<^verbatim>\<open>i.mutex.Lock()\<close> (line 64); before the range
  expression \<^verbatim>\<open>i.Devices\<close> is evaluated (line 65); in the loop, with the elements of that
  slice still to visit; before \<^verbatim>\<open>len(i.Devices)\<close> is sent (lines 73 to 77); before
  \<^verbatim>\<open>info.Collect()\<close> and \<^verbatim>\<open>i.mutex.Unlock()\<close> (lines 78 and 79); returned.
\<close>

datatype collect_pc = C_lock | C_range | C_loop "Device list" | C_count | C_unlock | C_done

text \<open>
  A call of \<^verbatim>\<open>Collect\<close>, with what it has seen of the inventory so far: the devices its
  loop has visited, and the length it has sent as the summary metric. The body of the
  loop (lines 66 to 71) reads neither \<^verbatim>\<open>i.Devices\<close> nor the mutex; here it only records the
  device.
\<close>

record pass =
  cpc :: collect_pc
  visited :: "Device list"
  counted :: "nat option"

text \<open>
  Where \<^verbatim>\<open>RescanForDevices\<close> stands: in \<^verbatim>\<open>time.Sleep\<close> (line 84); before \<^verbatim>\<open>i.mutex.Lock()\<close>
  with the local \<^verbatim>\<open>devices\<close> (line 87); before the assignment \<^verbatim>\<open>i.Devices = devices\<close>
  (line 88); before \<^verbatim>\<open>i.mutex.Unlock()\<close> (line 89).
\<close>

datatype rescan_pc = R_sleep | R_lock "Device list" | R_store "Device list" | R_unlock

text \<open>
  The mutex is the thread that holds it, \<open>None\<close> when it is unlocked. \<open>rescan\<close> is \<open>None\<close>
  when the goroutine was not started, \<open>passes c\<close> is \<open>None\<close> as long as scrape \<open>c\<close> has not
  called \<^verbatim>\<open>Collect\<close>. Two fields only keep track of the run: \<open>scans\<close> counts the calls of
  \<^verbatim>\<open>scanDevices\<close> so far, the one of \<^verbatim>\<open>main\<close> included, and \<open>held\<close> lists the values that
  \<^verbatim>\<open>i.Devices\<close> has had, the latest first.
\<close>

record state =
  Devices :: "Device list"
  mutex :: "tid option"
  rescan :: "rescan_pc option"
  passes :: "nat \<Rightarrow> pass option"
  scans :: nat
  held :: "Device list list"

text \<open>The state that \<^verbatim>\<open>main\<close> leaves when it starts serving (lines 201 to 219).\<close>

definition main_state ::
  "(string \<Rightarrow> string \<Rightarrow> string) \<Rightarrow> ('e scan_entry_scheme \<Rightarrow> Device list) \<Rightarrow> deviceFilter
     \<Rightarrow> string list \<Rightarrow> Duration \<Rightarrow> 'e scan_entry_scheme list \<Rightarrow> 'e scan_entry_scheme list \<Rightarrow> state" where
  "main_state getDiskName formatDevices flt smartctlDevices smartctlRescanInterval
       baseDevices raidDevices =
     (let devices =
            main_devices getDiskName formatDevices flt smartctlDevices baseDevices raidDevices
      in \<lparr>Devices = devices, mutex = None,
          rescan = (if rescan_started smartctlRescanInterval then Some R_sleep else None),
          passes = (\<lambda>c. None), scans = 1, held = [devices]\<rparr>)"

text \<open>
  The next statement of the call of \<^verbatim>\<open>Collect\<close> of scrape \<open>c\<close>, the call itself when the
  scrape has not called yet. The result is \<open>None\<close> when there is none: \<^verbatim>\<open>Lock\<close> can be taken
  only when the mutex is unlocked, and a call that has returned does nothing more.
\<close>

definition collect_next :: "nat \<Rightarrow> state \<Rightarrow> state option" where
  "collect_next c s =
     (case passes s c of
        None \<Rightarrow>
          Some (s\<lparr>passes := (passes s)(c \<mapsto> \<lparr>cpc = C_lock, visited = [], counted = None\<rparr>)\<rparr>)
      | Some p \<Rightarrow>
          (case cpc p of
             C_lock \<Rightarrow>
               if mutex s = None
               then Some (s\<lparr>mutex := Some (Scrape c),
                            passes := (passes s)(c \<mapsto> p\<lparr>cpc := C_range\<rparr>)\<rparr>)
               else None
           | C_range \<Rightarrow>
               Some (s\<lparr>passes := (passes s)(c \<mapsto> p\<lparr>cpc := C_loop (Devices s)\<rparr>)\<rparr>)
           | C_loop [] \<Rightarrow>
               Some (s\<lparr>passes := (passes s)(c \<mapsto> p\<lparr>cpc := C_count\<rparr>)\<rparr>)
           | C_loop (device # devices) \<Rightarrow>
               Some (s\<lparr>passes := (passes s)(c \<mapsto>
                       p\<lparr>cpc := C_loop devices, visited := visited p @ [device]\<rparr>)\<rparr>)
           | C_count \<Rightarrow>
               Some (s\<lparr>passes := (passes s)(c \<mapsto>
                       p\<lparr>cpc := C_unlock, counted := Some (length (Devices s))\<rparr>)\<rparr>)
           | C_unlock \<Rightarrow>
               Some (s\<lparr>mutex := None, passes := (passes s)(c \<mapsto> p\<lparr>cpc := C_done\<rparr>)\<rparr>)
           | C_done \<Rightarrow> None))"

text \<open>
  The next statement of \<^verbatim>\<open>RescanForDevices\<close>: the end of the sleep and the call of
  \<^verbatim>\<open>scanDevices\<close>, on the listings that the reader answers at that moment; \<^verbatim>\<open>Lock\<close>; the
  assignment; \<^verbatim>\<open>Unlock\<close>, back to the sleep.
\<close>

definition rescan_next ::
  "(string \<Rightarrow> string \<Rightarrow> string) \<Rightarrow> ('e scan_entry_scheme \<Rightarrow> Device list) \<Rightarrow> deviceFilter
     \<Rightarrow> 'e scan_entry_scheme list \<Rightarrow> 'e scan_entry_scheme list \<Rightarrow> state \<Rightarrow> state option" where
  "rescan_next getDiskName formatDevices flt baseDevices raidDevices s =
     (case rescan s of
        None \<Rightarrow> None
      | Some R_sleep \<Rightarrow>
          Some (s\<lparr>rescan := Some (R_lock
                   (scanDevices getDiskName formatDevices flt baseDevices raidDevices)),
                 scans := scans s + 1\<rparr>)
      | Some (R_lock devices) \<Rightarrow>
          if mutex s = None
          then Some (s\<lparr>mutex := Some Rescanner, rescan := Some (R_store devices)\<rparr>)
          else None
      | Some (R_store devices) \<Rightarrow>
          Some (s\<lparr>Devices := devices, rescan := Some R_unlock, held := devices # held s\<rparr>)
      | Some R_unlock \<Rightarrow> Some (s\<lparr>mutex := None, rescan := Some R_sleep\<rparr>))"

text \<open>
  One step of the program: a scrape or the rescan goroutine does its next statement. A
  step of the goroutine comes with the two listings that \<^verbatim>\<open>readSMARTctlDevices\<close> would
  return at that moment.
\<close>

datatype 'e event =
  Collect_step nat
| Rescan_step "'e scan_entry_scheme list" "'e scan_entry_scheme list"

fun step ::
  "(string \<Rightarrow> string \<Rightarrow> string) \<Rightarrow> ('e scan_entry_scheme \<Rightarrow> Device list) \<Rightarrow> deviceFilter
     \<Rightarrow> 'e event \<Rightarrow> state \<Rightarrow> state option" where
  "step getDiskName formatDevices flt (Collect_step c) s = collect_next c s"
| "step getDiskName formatDevices flt (Rescan_step baseDevices raidDevices) s =
     rescan_next getDiskName formatDevices flt baseDevices raidDevices s"

text \<open>
  A run from a state: the steps of an interleaving, one after the other. The result is
  \<open>None\<close> when the interleaving is not one of the program, because one of its steps is
  not possible where it stands.
\<close>

fun run ::
  "(string \<Rightarrow> string \<Rightarrow> string) \<Rightarrow> ('e scan_entry_scheme \<Rightarrow> Device list) \<Rightarrow> deviceFilter
     \<Rightarrow> 'e event list \<Rightarrow> state \<Rightarrow> state option" where
  "run getDiskName formatDevices flt [] s = Some s"
| "run getDiskName formatDevices flt (e # es) s =
     (case step getDiskName formatDevices flt e s of
        None \<Rightarrow> None
      | Some s' \<Rightarrow> run getDiskName formatDevices flt es s')"

text \<open>Whether a call of \<^verbatim>\<open>Collect\<close> stands between its \<^verbatim>\<open>Lock\<close> and its \<^verbatim>\<open>Unlock\<close>.\<close>

fun collect_critical :: "collect_pc \<Rightarrow> bool" where
  "collect_critical C_lock = False"
| "collect_critical C_done = False"
| "collect_critical _ = True"

text \<open>The same for \<^verbatim>\<open>RescanForDevices\<close>.\<close>

fun rescan_critical :: "rescan_pc \<Rightarrow> bool" where
  "rescan_critical (R_store devices) = True"
| "rescan_critical R_unlock = True"
| "rescan_critical _ = False"

section \<open>Notions used in the statements\<close>

text \<open>
  The string under which the first loop of \<^verbatim>\<open>scanDevices\<close> records an entry in \<^verbatim>\<open>isExists\<close>
  and under which the second loop looks an entry up.
\<close>

definition key :: "'e scan_entry_scheme \<Rightarrow> string" where
  "key d = TrimSpace (info_name d)"

text \<open>The Device that the first loop appends for an entry of the base pass.\<close>

definition base_device :: "(string \<Rightarrow> string \<Rightarrow> string) \<Rightarrow> 'e scan_entry_scheme \<Rightarrow> Device" where
  "base_device getDiskName d =
     \<lparr>Name = name d, Info_Name = getDiskName (TrimSpace (name d)) (TrimSpace (info_name d)),
      Type = type d\<rparr>"

text \<open>The entries of the raid pass whose key is the key of no entry of the base pass.\<close>

definition raid_only :: "'e scan_entry_scheme list \<Rightarrow> 'e scan_entry_scheme list \<Rightarrow> 'e scan_entry_scheme list" where
  "raid_only baseDevices raidDevices =
     filter (\<lambda>r. key r \<notin> key ` set baseDevices) raidDevices"

text \<open>The devices of a list that the filter does not ignore, in the order of the list.\<close>

definition kept :: "deviceFilter \<Rightarrow> Device list \<Rightarrow> Device list" where
  "kept flt devices = filter (\<lambda>d. \<not> ignored flt (Info_Name d)) devices"

text \<open>The value of \<^verbatim>\<open>info\<close> after the reader has given a list of answers.\<close>

fun info_after :: "('i \<Rightarrow> 'j \<Rightarrow> 'i) \<Rightarrow> 'i \<Rightarrow> 'j option list \<Rightarrow> 'i" where
  "info_after SetJSON info [] = info"
| "info_after SetJSON info (None # answers) = info_after SetJSON info answers"
| "info_after SetJSON info (Some json # answers) =
     info_after SetJSON (SetJSON info json) answers"

text \<open>
  What holds of a call of \<^verbatim>\<open>Collect\<close> in a state: it stands between \<^verbatim>\<open>Lock\<close> and \<^verbatim>\<open>Unlock\<close>
  exactly when it holds the mutex, and what it has seen so far is a part of one value
  of \<^verbatim>\<open>i.Devices\<close>: the present one while it holds the mutex, one of those that
  \<^verbatim>\<open>i.Devices\<close> has had once it has returned.
\<close>

definition pass_ok :: "state \<Rightarrow> nat \<Rightarrow> pass \<Rightarrow> bool" where
  "pass_ok s c p =
     ((collect_critical (cpc p) \<longleftrightarrow> mutex s = Some (Scrape c)) \<and>
      (case cpc p of
         C_lock \<Rightarrow> visited p = [] \<and> counted p = None
       | C_range \<Rightarrow> visited p = [] \<and> counted p = None
       | C_loop devices \<Rightarrow> visited p @ devices = Devices s \<and> counted p = None
       | C_count \<Rightarrow> visited p = Devices s \<and> counted p = None
       | C_unlock \<Rightarrow> visited p = Devices s \<and> counted p = Some (length (Devices s))
       | C_done \<Rightarrow> (\<exists>L \<in> set (held s). visited p = L \<and> counted p = Some (length L))))"

text \<open>The invariant of the runs: every call is as above, and so is the rescan goroutine.\<close>

definition serialized :: "state \<Rightarrow> bool" where
  "serialized s =
     ((\<forall>c p. passes s c = Some p \<longrightarrow> pass_ok s c p) \<and>
      (\<forall>c. passes s c = None \<longrightarrow> mutex s \<noteq> Some (Scrape c)) \<and>
      (case rescan s of
         None \<Rightarrow> mutex s \<noteq> Some Rescanner
       | Some r \<Rightarrow> (rescan_critical r \<longleftrightarrow> mutex s = Some Rescanner)) \<and>
      Devices s \<in> set (held s))"

text \<open>The local \<^verbatim>\<open>devices\<close> of the rescan goroutine, when it has one.\<close>

fun pending :: "rescan_pc option \<Rightarrow> Device list option" where
  "pending (Some (R_lock devices)) = Some devices"
| "pending (Some (R_store devices)) = Some devices"
| "pending _ = None"

text \<open>A device list that some call of \<^verbatim>\<open>scanDevices\<close> returns, under the given flags.\<close>

definition scanned ::
  "(string \<Rightarrow> string \<Rightarrow> string) \<Rightarrow> ('e scan_entry_scheme \<Rightarrow> Device list) \<Rightarrow> deviceFilter
     \<Rightarrow> Device list \<Rightarrow> bool" where
  "scanned getDiskName formatDevices flt devices =
     (\<exists>baseDevices raidDevices.
        devices = scanDevices getDiskName formatDevices flt baseDevices raidDevices)"

text \<open>
  What holds of the history of \<^verbatim>\<open>i.Devices\<close> in a run that starts with the inventory
  \<open>devices0\<close>: the latest value is the present one, the oldest is \<open>devices0\<close>, and every other
  value, like the local \<^verbatim>\<open>devices\<close> of the rescan goroutine, was returned by \<^verbatim>\<open>scanDevices\<close>.
\<close>

definition history_ok ::
  "(string \<Rightarrow> string \<Rightarrow> string) \<Rightarrow> ('e scan_entry_scheme \<Rightarrow> Device list) \<Rightarrow> deviceFilter
     \<Rightarrow> Device list \<Rightarrow> state \<Rightarrow> bool" where
  "history_ok getDiskName formatDevices flt devices0 s =
     (held s \<noteq> [] \<and> hd (held s) = Devices s \<and> last (held s) = devices0 \<and>
      (\<forall>L \<in> set (butlast (held s)). scanned getDiskName formatDevices flt L) \<and>
      (\<forall>devices. pending (rescan s) = Some devices \<longrightarrow>
         scanned getDiskName formatDevices flt devices))"

text \<open>
  The listings that \<^verbatim>\<open>readSMARTctlDevices\<close> has at the steps of the rescan goroutine in an
  interleaving, base pass and raid pass, the oldest first.
\<close>

fun listings ::
  "'e event list \<Rightarrow> ('e scan_entry_scheme list \<times> 'e scan_entry_scheme list) list" where
  "listings [] = []"
| "listings (Collect_step c # es) = listings es"
| "listings (Rescan_step baseDevices raidDevices # es) =
     (baseDevices, raidDevices) # listings es"

text \<open>
  The goroutine takes four steps for each rescan: the call of \<^verbatim>\<open>scanDevices\<close> at the end
  of the sleep, \<^verbatim>\<open>Lock\<close>, the assignment and \<^verbatim>\<open>Unlock\<close>. Of what comes with its steps, one item
  for each step, \<open>stored\<close> gives the items of the first steps of the rescans whose
  assignment is done: with \<open>listings\<close>, the listings that the calls of \<^verbatim>\<open>scanDevices\<close> of
  those rescans have read.
\<close>

fun stored :: "'a list \<Rightarrow> 'a list" where
  "stored (x # y # z # u # rest) = x # stored rest"
| "stored [x, y, z] = [x]"
| "stored _ = []"

text \<open>
  The same from any statement of the goroutine, on the results of the calls instead of
  the listings: the values that the goroutine assigns when it takes one step for each
  item of the list, the oldest first.
\<close>

fun stored_from :: "rescan_pc \<Rightarrow> Device list list \<Rightarrow> Device list list" where
  "stored_from pc [] = []"
| "stored_from R_sleep (d # ds) = stored_from (R_lock d) ds"
| "stored_from (R_lock devices) (d # ds) = stored_from (R_store devices) ds"
| "stored_from (R_store devices) (d # ds) = devices # stored_from R_unlock ds"
| "stored_from R_unlock (d # ds) = stored_from R_sleep ds"

section \<open>Inputs of the examples\<close>

text \<open>
  Modelled from the spec: \<^verbatim>\<open>getDiskName\<close> and \<^verbatim>\<open>formatDevices\<close> are not among the sources at
  hand. The examples need values for them. In the scenarios of the specification a
  listing entry named \<^verbatim>\<open>sda\<close> yields the Device of canonical name \<^verbatim>\<open>sda\<close>, in either pass:
  \<open>infoNameAsIs\<close> and \<open>oneDevice\<close> do that. \<open>stripDev\<close> is a \<^verbatim>\<open>getDiskName\<close> whose canonical
  name differs from the \<^verbatim>\<open>info_name\<close> it is derived from.
\<close>

definition infoNameAsIs :: "string \<Rightarrow> string \<Rightarrow> string" where
  "infoNameAsIs n i = i"

definition stripDev :: "string \<Rightarrow> string \<Rightarrow> string" where
  "stripDev n i = (if prefix ''/dev/'' i then drop 5 i else i)"

definition oneDevice :: "scan_entry \<Rightarrow> Device list" where
  "oneDevice d = [\<lparr>Name = name d, Info_Name = TrimSpace (info_name d), Type = type d\<rparr>]"

text \<open>The filter when neither flag is given, and what the pattern \<^verbatim>\<open>^loop\<close> matches.\<close>

definition noFilter :: deviceFilter where
  "noFilter = \<lparr>exclude_re = None, include_re = None\<rparr>"

definition loop_re :: regexp where
  "loop_re s = prefix ''loop'' s"

text \<open>A listing entry and a Device of a given name.\<close>

definition entry :: "string \<Rightarrow> scan_entry" where
  "entry n = \<lparr>name = n, info_name = n, type = ''scsi''\<rparr>"

definition dev :: "string \<Rightarrow> Device" where
  "dev n = \<lparr>Name = n, Info_Name = n, Type = ''scsi''\<rparr>"

text \<open>The same for a disk behind a controller, of type \<^verbatim>\<open>sat\<close>, as the raid pass lists it.\<close>

definition sat_entry :: "string \<Rightarrow> scan_entry" where
  "sat_entry n = \<lparr>name = n, info_name = n, type = ''sat''\<rparr>"

definition sat_dev :: "string \<Rightarrow> Device" where
  "sat_dev n = \<lparr>Name = n, Info_Name = n, Type = ''sat''\<rparr>"

text \<open>
  Modelled from the spec: \<^verbatim>\<open>readData\<close>, \<^verbatim>\<open>SetJSON\<close> and the two \<^verbatim>\<open>Collect\<close> methods of the
  collaborators are not among the sources at hand. In the example the reader has no
  result for \<^verbatim>\<open>sdb\<close> and answers with the name of any other device, \<^verbatim>\<open>info\<close> keeps the last
  result it was given, and each collaborator sends its input as one metric.
\<close>

definition sdbUnreadable :: "nat \<Rightarrow> Device \<Rightarrow> string option \<times> nat" where
  "sdbUnreadable r d = (if Info_Name d = ''sdb'' then None else Some (Info_Name d), r + 1)"

definition lastJSON :: "string \<Rightarrow> string \<Rightarrow> string" where
  "lastJSON info json = json"

definition oneMetric :: "string \<Rightarrow> string list" where
  "oneMetric json = [json]"

text \<open>
  Two runs. Both start from \<^verbatim>\<open>main\<close> with the flag \<^verbatim>\<open>smartctl.device\<close> set to \<^verbatim>\<open>sda\<close> and a
  base pass that lists \<^verbatim>\<open>sda\<close> and \<^verbatim>\<open>sdb\<close>. In the first the rescan interval is ten minutes: a
  rescan finds both devices, a scrape runs between the scan and the assignment of its
  result, and \<open>run_end\<close> is the state after both. In the second the interval is half a
  second, and \<open>quiet_end\<close> is the state after one scrape. The seven steps of a scrape of
  one device are the call, \<^verbatim>\<open>Lock\<close>, the range expression, the body, the end of the loop,
  the summary metric and \<^verbatim>\<open>Unlock\<close>.
\<close>

definition run_start :: state where
  "run_start = main_state infoNameAsIs oneDevice noFilter [''sda''] (600 * Second)
     [entry ''sda'', entry ''sdb''] []"

definition run_end :: state where
  "run_end = \<lparr>Devices = [dev ''sda'', dev ''sdb''], mutex = None, rescan = Some R_sleep,
     passes = (\<lambda>c. None)(0 \<mapsto> \<lparr>cpc = C_done, visited = [dev ''sda''], counted = Some 1\<rparr>),
     scans = 2, held = [[dev ''sda'', dev ''sdb''], [dev ''sda'']]\<rparr>"

definition run_events :: "unit event list" where
  "run_events =
     [Rescan_step [entry ''sda'', entry ''sdb''] [],
      Collect_step 0, Collect_step 0, Collect_step 0, Collect_step 0, Collect_step 0,
      Collect_step 0, Collect_step 0,
      Rescan_step [] [], Rescan_step [] [], Rescan_step [] []]"

definition quiet_start :: state where
  "quiet_start = main_state infoNameAsIs oneDevice noFilter [''sda''] 500000000
     [entry ''sda'', entry ''sdb''] []"

definition quiet_end :: state where
  "quiet_end = \<lparr>Devices = [dev ''sda''], mutex = None, rescan = None,
     passes = (\<lambda>c. None)(0 \<mapsto> \<lparr>cpc = C_done, visited = [dev ''sda''], counted = Some 1\<rparr>),
     scans = 1, held = [[dev ''sda'']]\<rparr>"

definition quiet_events :: "unit event list" where
  "quiet_events =
     [Collect_step 0, Collect_step 0, Collect_step 0, Collect_step 0, Collect_step 0,
      Collect_step 0, Collect_step 0]"

section \<open>Lemmas on the loops\<close>

lemma TrimSpace_sda: "TrimSpace ''sda'' = ''sda''"
  by code_simp

lemma TrimSpace_sdb: "TrimSpace ''sdb'' = ''sdb''"
  by code_simp

lemma TrimSpace_sdc: "TrimSpace ''sdc'' = ''sdc''"
  by code_simp

lemma Contains_sublist: "Contains s sub \<longleftrightarrow> sublist sub s"
  by (induction s) (auto simp: sublist_Cons_right)

lemma filter_loop_eq: "filter_loop flt ds acc = acc @ kept flt ds"
  by (induction ds arbitrary: acc) (auto simp: kept_def)

lemma base_loop_eq:
  "base_loop g bs (ex, acc) = ((\<lambda>k. ex k \<or> k \<in> key ` set bs), acc @ map (base_device g) bs)"
  by (induction bs arbitrary: ex acc) (auto simp: Let_def fun_eq_iff key_def base_device_def)

lemma raid_loop_eq:
  "raid_loop fmt ex rs acc = acc @ concat (map fmt (filter (\<lambda>r. \<not> ex (key r)) rs))"
  by (induction rs arbitrary: acc) (auto simp: key_def)

lemma candidates_eq:
  "candidates g fmt bs rs = map (base_device g) bs @ concat (map fmt (raid_only bs rs))"
  by (simp add: candidates_def base_loop_eq raid_loop_eq raid_only_def)

lemma scanDevices_eq:
  "scanDevices g fmt flt bs rs =
     kept flt (map (base_device g) bs) @ kept flt (concat (map fmt (raid_only bs rs)))"
  by (simp add: scanDevices_def filter_loop_eq candidates_eq kept_def)

lemma filters_hit_iff: "filters_hit d fs \<longleftrightarrow> (\<exists>f \<in> set fs. Contains (Info_Name d) f)"
  by (induction fs) auto

lemma filterDevices_loop_eq:
  "filterDevices_loop ds fs acc = acc @ filter (\<lambda>d. filters_hit d fs) ds"
  by (induction ds arbitrary: acc) auto

lemma filterDevices_sda: "filterDevices [dev ''sda'', dev ''sdb''] [''sda''] = [dev ''sda'']"
  by (simp add: filterDevices_def dev_def)

lemma scan_sda_sdb:
  "scanDevices infoNameAsIs oneDevice noFilter [entry ''sda'', entry ''sdb''] [] =
     [dev ''sda'', dev ''sdb'']"
  by (simp add: scanDevices_def candidates_def infoNameAsIs_def noFilter_def entry_def dev_def
       TrimSpace_sda TrimSpace_sdb ignored_def)

lemma TrimSpace_dev_sda: "TrimSpace ''/dev/sda'' = ''/dev/sda''"
  by code_simp

lemma TrimSpace_sp_dev_sda: "TrimSpace '' /dev/sda'' = ''/dev/sda''"
  by code_simp

lemma TrimSpace_loop0: "TrimSpace ''loop0'' = ''loop0''"
  by code_simp

lemma TrimSpace_loop1: "TrimSpace ''loop1'' = ''loop1''"
  by code_simp

lemma filter_distinct_key:
  "distinct (map f xs) \<Longrightarrow> x \<in> set xs \<Longrightarrow> filter (\<lambda>y. f y = f x) xs = [x]"
proof (induction xs)
  case Nil
  then show ?case by simp
next
  case (Cons a xs)
  show ?case
  proof (cases "a = x")
    case True
    with Cons.prems have "f x \<notin> f ` set xs" by simp
    then have "\<forall>y \<in> set xs. f y \<noteq> f x" by (metis imageI)
    then have "filter (\<lambda>y. f y = f x) xs = []" by (simp add: filter_empty_conv)
    with True show ?thesis by simp
  next
    case False
    with Cons.prems have "x \<in> set xs" "f a \<noteq> f x" by auto
    with Cons show ?thesis by simp
  qed
qed

text \<open>
  In the lemmas below \<open>owner\<close> gives, for a canonical name, the key of the listing entry
  that a Device of that name comes from.
\<close>

lemma base_names_distinct:
  assumes own: "\<forall>b \<in> set bs. owner (Info_Name (base_device g b)) = key b"
    and dist: "distinct (map key bs)"
  shows "distinct (map (Info_Name \<circ> base_device g) bs)"
proof -
  have "map owner (map (Info_Name \<circ> base_device g) bs) = map key bs"
    using own by simp
  with dist have "distinct (map owner (map (Info_Name \<circ> base_device g) bs))"
    by (simp only:)
  then show ?thesis by (auto simp: distinct_map dest: inj_on_imageI2)
qed

lemma raid_owners:
  assumes "\<forall>r \<in> set rs. \<forall>d \<in> set (fmt r). owner (Info_Name d) = key r"
  shows "(owner \<circ> Info_Name) ` set (concat (map fmt (raid_only bs rs)))
           \<subseteq> key ` set rs - key ` set bs"
  using assms by (auto simp: raid_only_def)

lemma base_part_once:
  assumes own: "\<forall>b \<in> set bs. owner (Info_Name (base_device g b)) = key b"
    and dist: "distinct (map key bs)" and b: "b \<in> set bs"
    and keep: "\<not> ignored flt (Info_Name (base_device g b))"
  shows "filter (\<lambda>d. Info_Name d = Info_Name (base_device g b))
           (kept flt (map (base_device g) bs)) = [base_device g b]"
proof -
  let ?n = "Info_Name \<circ> base_device g"
  have "filter (\<lambda>d. Info_Name d = Info_Name (base_device g b))
          (kept flt (map (base_device g) bs)) =
        map (base_device g) (filter (\<lambda>e. ?n e = ?n b \<and> \<not> ignored flt (?n e)) bs)"
    by (induction bs) (auto simp: kept_def)
  also have "filter (\<lambda>e. ?n e = ?n b \<and> \<not> ignored flt (?n e)) bs =
      filter (\<lambda>e. ?n e = ?n b) bs"
    using keep by (intro filter_cong) auto
  also have "\<dots> = [b]"
    using filter_distinct_key[OF base_names_distinct[OF own dist] b] .
  finally show ?thesis by simp
qed

lemma raid_part_none:
  assumes own: "\<forall>b \<in> set bs. owner (Info_Name (base_device g b)) = key b"
    and raid: "\<forall>r \<in> set rs. \<forall>d \<in> set (fmt r). owner (Info_Name d) = key r"
    and b: "b \<in> set bs"
  shows "filter (\<lambda>d. Info_Name d = Info_Name (base_device g b))
           (kept flt (concat (map fmt (raid_only bs rs)))) = []"
proof -
  have "Info_Name d \<noteq> Info_Name (base_device g b)"
    if d: "d \<in> set (concat (map fmt (raid_only bs rs)))" for d
  proof
    assume eq: "Info_Name d = Info_Name (base_device g b)"
    from raid_owners[OF raid, of bs] d have "owner (Info_Name d) \<notin> key ` set bs"
      by auto
    moreover from own b eq have "owner (Info_Name d) = key b" by simp
    ultimately show False using b by simp
  qed
  then show ?thesis by (auto simp: filter_empty_conv kept_def)
qed

lemma raid_part_distinct:
  assumes raid: "\<forall>r \<in> set rs. \<forall>d \<in> set (fmt r). owner (Info_Name d) = key r"
    and each: "\<forall>r \<in> set rs. distinct (map Info_Name (fmt r))"
    and dist: "distinct (map key rs)"
  shows "distinct (map Info_Name (concat (map fmt rs)))"
  using assms
proof (induction rs)
  case Nil
  then show ?case by simp
next
  case (Cons r rs)
  from Cons.prems have d1: "distinct (map Info_Name (fmt r))" by simp
  from Cons.prems have "\<forall>d \<in> set (fmt r). owner (Info_Name d) = key r" by simp
  moreover from Cons.prems
  have "\<forall>d \<in> set (concat (map fmt rs)). owner (Info_Name d) \<in> key ` set rs" by auto
  moreover from Cons.prems have "key r \<notin> key ` set rs" by simp
  ultimately have "n \<notin> Info_Name ` set (concat (map fmt rs))"
    if "n \<in> Info_Name ` set (fmt r)" for n
    using that by (metis imageE)
  then have disj: "Info_Name ` set (fmt r) \<inter> Info_Name ` set (concat (map fmt rs)) = {}"
    by blast
  from Cons have "distinct (map Info_Name (concat (map fmt rs)))" by simp
  with d1 disj show ?case by simp
qed

lemma candidates_distinct:
  assumes own: "\<forall>b \<in> set bs. owner (Info_Name (base_device g b)) = key b"
    and raid: "\<forall>r \<in> set rs. \<forall>d \<in> set (fmt r). owner (Info_Name d) = key r"
    and each: "\<forall>r \<in> set rs. distinct (map Info_Name (fmt r))"
    and db: "distinct (map key bs)" and dr: "distinct (map key rs)"
  shows "distinct (map Info_Name (candidates g fmt bs rs))"
proof -
  have 1: "distinct (map Info_Name (map (base_device g) bs))"
    using base_names_distinct[OF own db] by simp
  have "distinct (map key (raid_only bs rs))"
    using dr by (simp add: raid_only_def distinct_map_filter)
  moreover have "\<forall>r \<in> set (raid_only bs rs). \<forall>d \<in> set (fmt r). owner (Info_Name d) = key r"
    using raid by (simp add: raid_only_def)
  moreover have "\<forall>r \<in> set (raid_only bs rs). distinct (map Info_Name (fmt r))"
    using each by (simp add: raid_only_def)
  ultimately have 2: "distinct (map Info_Name (concat (map fmt (raid_only bs rs))))"
    by (intro raid_part_distinct) auto
  have "n \<notin> Info_Name ` set (concat (map fmt (raid_only bs rs)))"
    if "n \<in> Info_Name ` set (map (base_device g) bs)" for n
  proof
    assume "n \<in> Info_Name ` set (concat (map fmt (raid_only bs rs)))"
    with raid_owners[OF raid, of bs] have "owner n \<notin> key ` set bs" by auto
    moreover from that own have "owner n \<in> key ` set bs" by auto
    ultimately show False by simp
  qed
  then have 3: "Info_Name ` set (map (base_device g) bs) \<inter>
        Info_Name ` set (concat (map fmt (raid_only bs rs))) = {}"
    by blast
  from 1 2 3 show ?thesis by (simp add: candidates_eq image_image)
qed

section \<open>Device discovery: the claims\<close>

text \<open>
  Claim C10. The second loop of \<^verbatim>\<open>scanDevices\<close> skips an entry of the raid pass if and only
  if its \<^verbatim>\<open>info_name\<close>, trimmed, is the trimmed \<^verbatim>\<open>info_name\<close> of some entry of the base-pass
  listing. The map \<^verbatim>\<open>isExists\<close> that the first loop leaves is true at exactly those strings,
  the second loop expands exactly the entries at which the map is false, and so the
  candidates are the base Devices followed by the expansions of the entries that have
  the trimmed \<^verbatim>\<open>info_name\<close> of no base entry. \<^verbatim>\<open>getDiskName\<close>, which gives the canonical name
  of the base Devices, has no part in the test.
\<close>

theorem raid_dedup_on_raw_info_name:
  fixes baseDevices raidDevices :: "'e scan_entry_scheme list"
  shows "(fst (base_loop getDiskName baseDevices (\<lambda>k. False, [])) k \<longleftrightarrow>
      (\<exists>b \<in> set baseDevices. TrimSpace (info_name b) = k)) \<and>
   raid_loop formatDevices isExists raidDevices devices =
     devices @ concat (map formatDevices
       (filter (\<lambda>r. \<not> isExists (TrimSpace (info_name r))) raidDevices)) \<and>
   candidates getDiskName formatDevices baseDevices raidDevices =
     map (base_device getDiskName) baseDevices @
     concat (map formatDevices
       (filter (\<lambda>r. \<not> (\<exists>b \<in> set baseDevices. TrimSpace (info_name b) = TrimSpace (info_name r)))
          raidDevices))"
proof -
  have "(\<lambda>r :: 'e scan_entry_scheme. key r \<notin> key ` set baseDevices) =
        (\<lambda>r. \<not> (\<exists>b \<in> set baseDevices. key b = key r))"
    by (auto simp: fun_eq_iff image_iff)
  then have "raid_only baseDevices raidDevices =
      filter (\<lambda>r. \<not> (\<exists>b \<in> set baseDevices. TrimSpace (info_name b) = TrimSpace (info_name r)))
        raidDevices"
    by (simp only: raid_only_def key_def)
  moreover have "fst (base_loop getDiskName baseDevices (\<lambda>k. False, [])) k \<longleftrightarrow>
      (\<exists>b \<in> set baseDevices. TrimSpace (info_name b) = k)"
    by (auto simp: base_loop_eq key_def)
  moreover have "raid_loop formatDevices isExists raidDevices devices =
     devices @ concat (map formatDevices
       (filter (\<lambda>r. \<not> isExists (TrimSpace (info_name r))) raidDevices))"
    by (simp add: raid_loop_eq key_def)
  ultimately show ?thesis
    by (simp only: candidates_eq simp_thms)
qed

text \<open>
  The base entry \<^verbatim>\<open>/dev/sda\<close> gets the canonical name \<^verbatim>\<open>sda\<close>. The raid entry whose
  \<^verbatim>\<open>info_name\<close> is \<^verbatim>\<open>/dev/sda\<close> after trimming is skipped; the raid entry whose \<^verbatim>\<open>info_name\<close> is
  that canonical name \<^verbatim>\<open>sda\<close> is not.
\<close>

theorem raid_dedup_on_raw_info_name_witness:
  "candidates stripDev oneDevice [entry ''/dev/sda''] [entry '' /dev/sda'', entry ''sda''] =
     [\<lparr>Name = ''/dev/sda'', Info_Name = ''sda'', Type = ''scsi''\<rparr>, dev ''sda'']"
  using raid_dedup_on_raw_info_name[where baseDevices = "[entry ''/dev/sda'']"
      and raidDevices = "[entry '' /dev/sda'', entry ''sda'']" and getDiskName = stripDev
      and formatDevices = oneDevice]
  by (simp add: base_device_def stripDev_def oneDevice_def entry_def dev_def
        TrimSpace_sda TrimSpace_dev_sda TrimSpace_sp_dev_sda)

text \<open>
  Claim C2, as stated: whenever a canonical name appears in both passes, the result has
  exactly one Device with that name. It fails in two ways. When the filter ignores the
  name, the result has no Device with it: here \<^verbatim>\<open>exclude\<close> is \<^verbatim>\<open>^loop\<close> and both passes list
  \<^verbatim>\<open>loop0\<close>. When the base-pass listing itself names a device twice, the result has two:
  no loop of \<^verbatim>\<open>scanDevices\<close> compares the entries of one pass with each other. Here the
  base pass lists \<^verbatim>\<open>sda\<close> twice and the raid pass once.
\<close>

theorem scanDevices_exactly_one_counterexample:
  "scanDevices infoNameAsIs oneDevice \<lparr>exclude_re = Some loop_re, include_re = None\<rparr>
     [entry ''loop0''] [entry ''loop0''] = [] \<and>
   scanDevices infoNameAsIs oneDevice noFilter [entry ''sda'', entry ''sda''] [entry ''sda''] =
     [dev ''sda'', dev ''sda''] \<and>
   count_list (map Info_Name
     (scanDevices infoNameAsIs oneDevice noFilter [entry ''sda'', entry ''sda''] [entry ''sda'']))
     ''sda'' = 2"
  by (simp add: scanDevices_eq key_def base_device_def raid_only_def kept_def infoNameAsIs_def
        oneDevice_def noFilter_def ignored_def entry_def dev_def loop_re_def
        TrimSpace_sda TrimSpace_loop0)

text \<open>
  Claim C2, amended. Let the key of a listing entry be its trimmed \<^verbatim>\<open>info_name\<close>. For all
  listings, the result of \<^verbatim>\<open>scanDevices\<close> is the base-pass Devices that the filter does not
  ignore, in base-pass order, followed by the expansions, not ignored, of the raid-pass
  entries whose key is the key of no base-pass entry, in raid-pass order. If moreover
  the canonical name of every Device determines the key of the entry it comes from
  (\<open>owner\<close> gives that key) and no two entries of the base pass have the same key, then
  for every base-pass entry \<open>b\<close> whose canonical name the filter does not ignore, the
  result has exactly one Device of that name, the one built from \<open>b\<close>.
\<close>

theorem scanDevices_dedup_base_first:
  "scanDevices getDiskName formatDevices flt baseDevices raidDevices =
     kept flt (map (base_device getDiskName) baseDevices) @
     kept flt (concat (map formatDevices (raid_only baseDevices raidDevices))) \<and>
   ((\<forall>e \<in> set baseDevices. owner (Info_Name (base_device getDiskName e)) = key e) \<and>
    (\<forall>r \<in> set raidDevices. \<forall>d \<in> set (formatDevices r). owner (Info_Name d) = key r) \<and>
    distinct (map key baseDevices) \<and> b \<in> set baseDevices \<and>
    \<not> ignored flt (Info_Name (base_device getDiskName b)) \<longrightarrow>
    filter (\<lambda>d. Info_Name d = Info_Name (base_device getDiskName b))
      (scanDevices getDiskName formatDevices flt baseDevices raidDevices) =
      [base_device getDiskName b])"
proof -
  have "filter (\<lambda>d. Info_Name d = Info_Name (base_device getDiskName b))
      (scanDevices getDiskName formatDevices flt baseDevices raidDevices) =
      [base_device getDiskName b]"
    if own: "\<forall>e \<in> set baseDevices. owner (Info_Name (base_device getDiskName e)) = key e"
      and raid: "\<forall>r \<in> set raidDevices. \<forall>d \<in> set (formatDevices r). owner (Info_Name d) = key r"
      and dist: "distinct (map key baseDevices)" and b: "b \<in> set baseDevices"
      and keep: "\<not> ignored flt (Info_Name (base_device getDiskName b))"
    using base_part_once[OF own dist b keep] raid_part_none[OF own raid b]
    by (simp add: scanDevices_eq)
  then show ?thesis by (simp add: scanDevices_eq)
qed

text \<open>
  The scenario of the specification: base pass \<^verbatim>\<open>["sda","sdb"]\<close>, raid pass \<^verbatim>\<open>["sda","sdc"]\<close>.
  The raid pass lists its entries with the type \<^verbatim>\<open>sat\<close>, so that the Device that it would
  give for \<^verbatim>\<open>sda\<close> is not the one of the base pass: the result has the latter.
\<close>

theorem scanDevices_dedup_base_first_witness:
  "scanDevices infoNameAsIs oneDevice noFilter
     [entry ''sda'', entry ''sdb''] [sat_entry ''sda'', sat_entry ''sdc''] =
     [dev ''sda'', dev ''sdb'', sat_dev ''sdc''] \<and>
   filter (\<lambda>d. Info_Name d = ''sda'')
     (scanDevices infoNameAsIs oneDevice noFilter
        [entry ''sda'', entry ''sdb''] [sat_entry ''sda'', sat_entry ''sdc'']) = [dev ''sda''] \<and>
   base_device infoNameAsIs (entry ''sda'') = dev ''sda'' \<and>
   oneDevice (sat_entry ''sda'') = [sat_dev ''sda''] \<and>
   dev ''sda'' \<noteq> sat_dev ''sda''"
  using scanDevices_dedup_base_first[where baseDevices = "[entry ''sda'', entry ''sdb'']"
      and raidDevices = "[sat_entry ''sda'', sat_entry ''sdc'']" and getDiskName = infoNameAsIs
      and formatDevices = oneDevice and flt = noFilter and b = "entry ''sda''"
      and owner = "\<lambda>n. n"]
  by (simp add: key_def base_device_def raid_only_def kept_def infoNameAsIs_def oneDevice_def
        noFilter_def ignored_def entry_def dev_def sat_entry_def sat_dev_def
        TrimSpace_sda TrimSpace_sdb TrimSpace_sdc)

text \<open>
  Claim C3, as stated: no two Devices of a result have the same canonical name. It fails
  when the raid-pass listing names a device twice: the second loop reads \<^verbatim>\<open>isExists\<close> and
  never writes it, so both entries are expanded.
\<close>

theorem scanDevices_repeated_raid_counterexample:
  "scanDevices infoNameAsIs oneDevice noFilter [entry ''sda''] [entry ''sdc'', entry ''sdc''] =
     [dev ''sda'', dev ''sdc'', dev ''sdc''] \<and>
   \<not> distinct (map Info_Name
     (scanDevices infoNameAsIs oneDevice noFilter [entry ''sda''] [entry ''sdc'', entry ''sdc'']))"
  by (simp add: scanDevices_eq key_def base_device_def raid_only_def kept_def infoNameAsIs_def
        oneDevice_def noFilter_def ignored_def entry_def dev_def TrimSpace_sda TrimSpace_sdc)

text \<open>
  Claim C3, amended. If no two entries of the base-pass listing have the same key (the
  trimmed \<^verbatim>\<open>info_name\<close>), no two entries of the raid-pass listing have the same key, the
  canonical name of every Device determines the key of the entry it comes from (\<open>owner\<close>
  gives that key), and the Devices that one raid-pass entry expands to have different
  canonical names, then no two Devices of the result have the same canonical name.
\<close>

theorem scanDevices_unique_names:
  assumes "\<forall>b \<in> set baseDevices. owner (Info_Name (base_device getDiskName b)) = key b"
    and "\<forall>r \<in> set raidDevices. \<forall>d \<in> set (formatDevices r). owner (Info_Name d) = key r"
    and "\<forall>r \<in> set raidDevices. distinct (map Info_Name (formatDevices r))"
    and "distinct (map key baseDevices)" and "distinct (map key raidDevices)"
  shows "distinct (map Info_Name
           (scanDevices getDiskName formatDevices flt baseDevices raidDevices))"
proof -
  have "scanDevices getDiskName formatDevices flt baseDevices raidDevices =
        kept flt (candidates getDiskName formatDevices baseDevices raidDevices)"
    by (simp add: scanDevices_def filter_loop_eq)
  with candidates_distinct[OF assms] show ?thesis
    by (simp add: kept_def distinct_map_filter)
qed

theorem scanDevices_unique_names_witness:
  "distinct (map Info_Name
     (scanDevices infoNameAsIs oneDevice noFilter
        [entry ''sda'', entry ''sdb''] [entry ''sda'', entry ''sdc'']))"
  using scanDevices_unique_names[where baseDevices = "[entry ''sda'', entry ''sdb'']"
      and raidDevices = "[entry ''sda'', entry ''sdc'']" and getDiskName = infoNameAsIs
      and formatDevices = oneDevice and flt = noFilter and owner = "\<lambda>n. n"]
  by (simp add: key_def base_device_def infoNameAsIs_def oneDevice_def
        entry_def TrimSpace_sda TrimSpace_sdb TrimSpace_sdc)

text \<open>
  Claim C4, as stated, for every configuration of the filter: with \<^verbatim>\<open>include\<close> set, a name
  is ignored exactly when it does not match \<^verbatim>\<open>include\<close>. It fails when \<^verbatim>\<open>exclude\<close> is set as
  well. With the pattern \<^verbatim>\<open>^loop\<close> for both, \<^verbatim>\<open>loop0\<close> matches \<^verbatim>\<open>include\<close> and is ignored, since
  it matches \<^verbatim>\<open>exclude\<close>.
\<close>

theorem ignored_both_patterns_counterexample:
  "ignored \<lparr>exclude_re = Some loop_re, include_re = Some loop_re\<rparr> ''loop0'' \<and>
   loop_re ''loop0''"
  by (simp add: ignored_def loop_re_def)

text \<open>
  Claim C4, amended. For every name: when only \<^verbatim>\<open>exclude\<close> is set, the name is ignored
  exactly when it matches \<^verbatim>\<open>exclude\<close>; when only \<^verbatim>\<open>include\<close> is set, the name is ignored
  exactly when it does not match \<^verbatim>\<open>include\<close>; when neither is set, it is not ignored.
  For every configuration of the filter, \<^verbatim>\<open>scanDevices\<close> returns the candidates whose
  canonical name is not ignored, in the order of the candidates.
\<close>

theorem ignored_one_pattern:
  "(ignored \<lparr>exclude_re = Some ex, include_re = None\<rparr> n \<longleftrightarrow> ex n) \<and>
   (ignored \<lparr>exclude_re = None, include_re = Some inc\<rparr> n \<longleftrightarrow> \<not> inc n) \<and>
   \<not> ignored \<lparr>exclude_re = None, include_re = None\<rparr> n \<and>
   scanDevices getDiskName formatDevices flt baseDevices raidDevices =
     filter (\<lambda>d. \<not> ignored flt (Info_Name d))
       (candidates getDiskName formatDevices baseDevices raidDevices)"
proof -
  have "filter_loop flt ds res = res @ filter (\<lambda>d. \<not> ignored flt (Info_Name d)) ds" for ds res
    by (induction ds arbitrary: res) simp_all
  then have "scanDevices getDiskName formatDevices flt baseDevices raidDevices =
     filter (\<lambda>d. \<not> ignored flt (Info_Name d))
       (candidates getDiskName formatDevices baseDevices raidDevices)"
    by (simp add: scanDevices_def)
  moreover have "ignored \<lparr>exclude_re = Some ex, include_re = None\<rparr> n \<longleftrightarrow> ex n"
    and "ignored \<lparr>exclude_re = None, include_re = Some inc\<rparr> n \<longleftrightarrow> \<not> inc n"
    and "\<not> ignored \<lparr>exclude_re = None, include_re = None\<rparr> n"
    by (simp_all add: ignored_def)
  ultimately show ?thesis by simp
qed

text \<open>The scenario of the specification: \<^verbatim>\<open>exclude\<close> is \<^verbatim>\<open>^loop\<close>, the candidates are
  \<^verbatim>\<open>["sda","loop0","loop1"]\<close>.\<close>

theorem ignored_one_pattern_witness:
  "scanDevices infoNameAsIs oneDevice \<lparr>exclude_re = Some loop_re, include_re = None\<rparr>
     [entry ''sda'', entry ''loop0'', entry ''loop1''] [] = [dev ''sda'']"
  using ignored_one_pattern[where getDiskName = infoNameAsIs and formatDevices = oneDevice
      and flt = "\<lparr>exclude_re = Some loop_re, include_re = None\<rparr>"
      and baseDevices = "[entry ''sda'', entry ''loop0'', entry ''loop1'']" and raidDevices = "[]"
      and ex = loop_re and n = "''sda''"]
    ignored_one_pattern[where getDiskName = infoNameAsIs and formatDevices = oneDevice
      and flt = noFilter and baseDevices = "[]" and raidDevices = "[]"
      and ex = loop_re and n = "''loop0''"]
    ignored_one_pattern[where getDiskName = infoNameAsIs and formatDevices = oneDevice
      and flt = noFilter and baseDevices = "[]" and raidDevices = "[]"
      and ex = loop_re and n = "''loop1''"]
  by (simp add: candidates_def infoNameAsIs_def entry_def dev_def loop_re_def
        TrimSpace_sda TrimSpace_loop0 TrimSpace_loop1)

section \<open>Collection pass: the claim\<close>

lemma collect_loop_ch:
  "snd (snd (collect_loop readData SetJSON smartCollect devices (r, info, ch))) =
     ch @ concat (map (\<lambda>res. case res of None \<Rightarrow> [] | Some json \<Rightarrow> map Metric (smartCollect json))
             (outcomes readData r devices))"
proof (induction devices arbitrary: r info ch)
  case Nil
  then show ?case by simp
next
  case (Cons d devices)
  obtain res r' where rd: "readData r d = (res, r')" by (cases "readData r d")
  show ?case
  proof (cases res)
    case None
    with rd Cons show ?thesis by simp
  next
    case (Some json)
    with rd Cons show ?thesis by simp
  qed
qed

lemma collect_loop_info:
  "fst (snd (collect_loop readData SetJSON smartCollect devices (r, info, ch))) =
     info_after SetJSON info (outcomes readData r devices)"
proof (induction devices arbitrary: r info ch)
  case Nil
  then show ?case by simp
next
  case (Cons d devices)
  obtain res r' where rd: "readData r d = (res, r')" by (cases "readData r d")
  show ?case
  proof (cases res)
    case None
    with rd Cons show ?thesis by simp
  next
    case (Some json)
    with rd Cons show ?thesis by simp
  qed
qed

lemma length_outcomes: "length (outcomes readData r devices) = length devices"
  by (induction devices arbitrary: r) (auto split: prod.splits)

lemma summaries_append: "summaries (xs @ ys) = summaries xs @ summaries ys"
  by (induction xs rule: summaries.induct) auto

lemma summaries_Metric: "summaries (map Metric ms) = []"
  by (induction ms) auto

lemma summaries_emitted:
  "summaries (concat (map (\<lambda>res. case res of None \<Rightarrow> []
      | Some json \<Rightarrow> map Metric (smartCollect json)) answers)) = []"
  by (induction answers) (auto simp: summaries_append summaries_Metric split: option.splits)

text \<open>
  Claim C6. For every inventory and every reader, that is for every assignment of
  answers to the devices of a pass, what \<^verbatim>\<open>Collect\<close> sends is: for each device in
  inventory order, nothing when the reader has no result for it and the metrics of
  \<^verbatim>\<open>smart.Collect()\<close> for its result otherwise, whatever the answers for the other
  devices are; then the summary metric, whose value is the number of devices of the
  inventory, the unreadable ones included; then the metrics of \<^verbatim>\<open>info.Collect()\<close>. The
  reader is asked once for each device, and the summary metric is sent exactly once.
\<close>

theorem Collect_skips_unreadable:
  "fst (Collect readData NewSMARTctlInfo SetJSON smartCollect infoCollect devices r) =
     concat (map (\<lambda>res. case res of None \<Rightarrow> [] | Some json \<Rightarrow> map Metric (smartCollect json))
       (outcomes readData r devices)) @
     [DeviceCount (length devices)] @
     map Metric (infoCollect (info_after SetJSON NewSMARTctlInfo (outcomes readData r devices))) \<and>
   length (outcomes readData r devices) = length devices \<and>
   summaries (fst (Collect readData NewSMARTctlInfo SetJSON smartCollect infoCollect devices r)) =
     [length devices]"
proof -
  obtain r' info ch where loop:
    "collect_loop readData SetJSON smartCollect devices (r, NewSMARTctlInfo, []) = (r', info, ch)"
    by (cases "collect_loop readData SetJSON smartCollect devices (r, NewSMARTctlInfo, [])")
  from loop collect_loop_ch[of readData SetJSON smartCollect devices r NewSMARTctlInfo "[]"]
  have ch: "ch = concat (map (\<lambda>res. case res of None \<Rightarrow> []
      | Some json \<Rightarrow> map Metric (smartCollect json)) (outcomes readData r devices))"
    by simp
  from loop collect_loop_info[of readData SetJSON smartCollect devices r NewSMARTctlInfo "[]"]
  have info: "info = info_after SetJSON NewSMARTctlInfo (outcomes readData r devices)"
    by simp
  have out: "fst (Collect readData NewSMARTctlInfo SetJSON smartCollect infoCollect devices r) =
      ch @ [DeviceCount (length devices)] @ map Metric (infoCollect info)"
    using loop by (simp add: Collect_def)
  have "summaries (ch @ [DeviceCount (length devices)] @ map Metric (infoCollect info)) =
      [length devices]"
    unfolding ch by (simp add: summaries_append summaries_Metric summaries_emitted)
  with out ch info show ?thesis by (simp add: length_outcomes)
qed

text \<open>An inventory of three devices of which the second is unreadable.\<close>

theorem Collect_skips_unreadable_witness:
  "fst (Collect sdbUnreadable [] lastJSON oneMetric oneMetric
         [dev ''sda'', dev ''sdb'', dev ''sdc''] 0) =
     [Metric ''sda'', Metric ''sdc'', DeviceCount 3, Metric ''sdc''] \<and>
   outcomes sdbUnreadable 0 [dev ''sda'', dev ''sdb'', dev ''sdc''] =
     [Some ''sda'', None, Some ''sdc'']"
  using Collect_skips_unreadable[of sdbUnreadable "[]" lastJSON oneMetric oneMetric
      "[dev ''sda'', dev ''sdb'', dev ''sdc'']" 0]
  by (simp add: sdbUnreadable_def lastJSON_def oneMetric_def dev_def)

section \<open>Explicit device override: the claims\<close>

text \<open>
  Claim C5. For every device sequence and every allowlist of names, the empty one
  included, \<^verbatim>\<open>filterDevices\<close> returns the devices of the input whose canonical name contains
  at least one entry of the allowlist as a run of consecutive bytes (\<open>sublist f s\<close> says
  that \<open>s = ps @ f @ ss\<close> for some \<open>ps\<close> and \<open>ss\<close>), in the order of the input. A Device is
  thus retained if and only if its name contains an entry, and the result is a
  subsequence, hence a subset, of the input.
\<close>

theorem filterDevices_substring:
  "filterDevices devices filters =
     filter (\<lambda>d. \<exists>f \<in> set filters. sublist f (Info_Name d)) devices \<and>
   subseq (filterDevices devices filters) devices \<and>
   set (filterDevices devices filters) \<subseteq> set devices"
proof -
  have hit: "filters_hit d filters \<longleftrightarrow> (\<exists>f \<in> set filters. sublist f (Info_Name d))" for d
    by (simp add: filters_hit_iff Contains_sublist)
  have "filterDevices devices filters = filter (\<lambda>d. filters_hit d filters) devices"
    by (simp add: filterDevices_def filterDevices_loop_eq)
  with hit have eq: "filterDevices devices filters =
      filter (\<lambda>d. \<exists>f \<in> set filters. sublist f (Info_Name d)) devices"
    by simp
  then show ?thesis by simp
qed

text \<open>
  The scenario of the specification, the allowlist \<^verbatim>\<open>["sda"]\<close> against \<^verbatim>\<open>["sda","sdb"]\<close>, and
  one that tells the three kinds of match apart: \<^verbatim>\<open>sd\<close> is no device name and retains \<^verbatim>\<open>sda\<close>
  and \<^verbatim>\<open>sdb\<close>; \<^verbatim>\<open>loop.\<close> would match \<^verbatim>\<open>loop0\<close> as a regular expression and does not retain it.
\<close>

theorem filterDevices_substring_witness:
  "filterDevices [dev ''sda'', dev ''sdb''] [''sda''] = [dev ''sda''] \<and>
   filterDevices [dev ''sda'', dev ''loop0'', dev ''sdb''] [''sd'', ''loop.''] =
     [dev ''sda'', dev ''sdb'']"
  using filterDevices_substring[of "[dev ''sda'', dev ''sdb'']" "[''sda'']"]
    filterDevices_substring[of "[dev ''sda'', dev ''loop0'', dev ''sdb'']" "[''sd'', ''loop.'']"]
  by (simp add: sublist_code dev_def)

text \<open>
  Claim C9. For every device sequence, \<^verbatim>\<open>filterDevices\<close> with the empty allowlist returns
  the empty sequence. \<^verbatim>\<open>main\<close> applies \<^verbatim>\<open>filterDevices\<close> only when the list of the flag
  \<^verbatim>\<open>smartctl.device\<close> is not empty: with the empty list the inventory is the result of
  \<^verbatim>\<open>scanDevices\<close> as it is, with any other list it is that result restricted.
\<close>

theorem filterDevices_empty_allowlist:
  "filterDevices devices [] = [] \<and>
   main_devices getDiskName formatDevices flt [] baseDevices raidDevices =
     scanDevices getDiskName formatDevices flt baseDevices raidDevices \<and>
   (smartctlDevices \<noteq> [] \<longrightarrow>
      main_devices getDiskName formatDevices flt smartctlDevices baseDevices raidDevices =
        filterDevices (scanDevices getDiskName formatDevices flt baseDevices raidDevices)
          smartctlDevices)"
proof -
  have "filterDevices_loop ds [] filtered = filtered" for ds filtered
    by (induction ds arbitrary: filtered) simp_all
  then have empty: "filterDevices devices [] = []"
    by (simp add: filterDevices_def)
  have "length smartctlDevices > 0 \<longleftrightarrow> smartctlDevices \<noteq> []"
    by simp
  then show ?thesis
    using empty by (simp add: main_devices_def)
qed

theorem filterDevices_empty_allowlist_witness:
  "[''sda''] \<noteq> [] \<and> filterDevices [dev ''sda'', dev ''sdb''] [] = [] \<and>
   main_devices infoNameAsIs oneDevice noFilter [] [entry ''sda'', entry ''sdb''] [] =
     [dev ''sda'', dev ''sdb''] \<and>
   main_devices infoNameAsIs oneDevice noFilter [''sda''] [entry ''sda'', entry ''sdb''] [] =
     [dev ''sda'']"
  using filterDevices_empty_allowlist[of "[dev ''sda'', dev ''sdb'']" infoNameAsIs oneDevice
      noFilter "[entry ''sda'', entry ''sdb'']" "[]" "[''sda'']"]
  by (simp add: scan_sda_sdb filterDevices_sda)

section \<open>The shared collector: invariants of the runs\<close>

lemma serializedD: "serialized s \<Longrightarrow> passes s c = Some p \<Longrightarrow> pass_ok s c p"
  by (simp add: serialized_def)

lemma serialized_noneD: "serialized s \<Longrightarrow> passes s c = None \<Longrightarrow> mutex s \<noteq> Some (Scrape c)"
  by (simp add: serialized_def)

lemma serialized_rescanD:
  "serialized s \<Longrightarrow> rescan s = Some r \<Longrightarrow> rescan_critical r \<longleftrightarrow> mutex s = Some Rescanner"
  by (simp add: serialized_def)

lemma pass_ok_frame:
  assumes "pass_ok s c p" "Devices s' = Devices s" "set (held s) \<subseteq> set (held s')"
    "mutex s' = Some (Scrape c) \<longleftrightarrow> mutex s = Some (Scrape c)"
  shows "pass_ok s' c p"
  using assms by (cases "cpc p") (auto simp: pass_ok_def)

lemma pass_ok_idle:
  assumes "pass_ok s c p" "mutex s \<noteq> Some (Scrape c)" "set (held s) \<subseteq> set (held s')"
    "mutex s' \<noteq> Some (Scrape c)"
  shows "pass_ok s' c p"
  using assms by (cases "cpc p") (auto simp: pass_ok_def)

lemma serialized_pass_step:
  assumes inv: "serialized s" and p: "passes s c = Some p"
    and me: "pass_ok (s\<lparr>mutex := m, passes := (passes s)(c \<mapsto> p')\<rparr>) c p'"
    and m: "m = mutex s \<or> (mutex s = None \<and> m = Some (Scrape c)) \<or>
      (mutex s = Some (Scrape c) \<and> m = None)"
  shows "serialized (s\<lparr>mutex := m, passes := (passes s)(c \<mapsto> p')\<rparr>)"
    (is "serialized ?s'")
  unfolding serialized_def
proof (intro conjI allI impI)
  fix c' q assume a: "passes ?s' c' = Some q"
  show "pass_ok ?s' c' q"
  proof (cases "c' = c")
    case True
    with a me show ?thesis by simp
  next
    case False
    with a have "passes s c' = Some q" by simp
    from serializedD[OF inv this] have ok: "pass_ok s c' q" .
    show ?thesis
      using m False by (intro pass_ok_frame[OF ok]) auto
  qed
next
  fix c' assume "passes ?s' c' = None"
  then have "c' \<noteq> c" "passes s c' = None" by (auto split: if_splits)
  with serialized_noneD[OF inv, of c'] m show "mutex ?s' \<noteq> Some (Scrape c')" by auto
next
  from serializedD[OF inv p] have "pass_ok s c p" .
  with inv m show "case rescan ?s' of None \<Rightarrow> mutex ?s' \<noteq> Some Rescanner
      | Some r \<Rightarrow> rescan_critical r = (mutex ?s' = Some Rescanner)"
    by (auto simp: serialized_def split: option.splits)
next
  from inv show "Devices ?s' \<in> set (held ?s')"
    by (simp add: serialized_def)
qed

lemma serialized_rescan_step:
  assumes inv: "serialized s" and r: "rescan s = Some r"
    and m: "rescan_critical r' \<longleftrightarrow> m = Some Rescanner"
      "m = mutex s \<or> (mutex s = None \<and> m = Some Rescanner) \<or>
       (mutex s = Some Rescanner \<and> m = None)"
    and d: "D = Devices s \<and> H = held s \<or> mutex s = Some Rescanner \<and> H = D # held s"
  shows "serialized (s\<lparr>Devices := D, mutex := m, rescan := Some r', scans := n, held := H\<rparr>)"
    (is "serialized ?s'")
  unfolding serialized_def
proof (intro conjI allI impI)
  fix c q assume "passes ?s' c = Some q"
  then have "passes s c = Some q" by simp
  from serializedD[OF inv this] have ok: "pass_ok s c q" .
  from d show "pass_ok ?s' c q"
  proof
    assume "D = Devices s \<and> H = held s"
    with m show ?thesis by (intro pass_ok_frame[OF ok]) auto
  next
    assume "mutex s = Some Rescanner \<and> H = D # held s"
    with m show ?thesis by (intro pass_ok_idle[OF ok]) auto
  qed
next
  fix c assume "passes ?s' c = None"
  then have "passes s c = None" by simp
  with serialized_noneD[OF inv this] m show "mutex ?s' \<noteq> Some (Scrape c)" by auto
next
  from m show "case rescan ?s' of None \<Rightarrow> mutex ?s' \<noteq> Some Rescanner
      | Some r \<Rightarrow> rescan_critical r = (mutex ?s' = Some Rescanner)"
    by simp
next
  from inv d show "Devices ?s' \<in> set (held ?s')"
    by (auto simp: serialized_def)
qed

lemma serialized_call:
  assumes inv: "serialized s" and p: "passes s c = None"
  shows "serialized
      (s\<lparr>passes := (passes s)(c \<mapsto> \<lparr>cpc = C_lock, visited = [], counted = None\<rparr>)\<rparr>)"
    (is "serialized ?s'")
  unfolding serialized_def
proof (intro conjI allI impI)
  fix c' q assume a: "passes ?s' c' = Some q"
  show "pass_ok ?s' c' q"
  proof (cases "c' = c")
    case True
    with a serialized_noneD[OF inv p] show ?thesis by (auto simp: pass_ok_def)
  next
    case False
    with a have "passes s c' = Some q" by simp
    from serializedD[OF inv this] show ?thesis by (rule pass_ok_frame) auto
  qed
next
  fix c' assume "passes ?s' c' = None"
  then have "passes s c' = None" by (auto split: if_splits)
  from serialized_noneD[OF inv this] show "mutex ?s' \<noteq> Some (Scrape c')" by simp
next
  from inv show "case rescan ?s' of None \<Rightarrow> mutex ?s' \<noteq> Some Rescanner
      | Some r \<Rightarrow> rescan_critical r = (mutex ?s' = Some Rescanner)"
    by (simp add: serialized_def split: option.splits)
next
  from inv show "Devices ?s' \<in> set (held ?s')"
    by (simp add: serialized_def)
qed

text \<open>The steps, one case for each statement of the two functions.\<close>

lemma step_cases [consumes 1, case_names collect_call collect_lock collect_range collect_body
    collect_exit collect_count collect_unlock rescan_scan rescan_lock rescan_store rescan_unlock]:
  assumes "step g f flt e s = Some s'"
  obtains
    c where "e = Collect_step c" "passes s c = None"
      "s' = s\<lparr>passes := (passes s)(c \<mapsto> \<lparr>cpc = C_lock, visited = [], counted = None\<rparr>)\<rparr>"
  | c p where "e = Collect_step c" "passes s c = Some p" "cpc p = C_lock" "mutex s = None"
      "s' = s\<lparr>mutex := Some (Scrape c), passes := (passes s)(c \<mapsto> p\<lparr>cpc := C_range\<rparr>)\<rparr>"
  | c p where "e = Collect_step c" "passes s c = Some p" "cpc p = C_range"
      "s' = s\<lparr>passes := (passes s)(c \<mapsto> p\<lparr>cpc := C_loop (Devices s)\<rparr>)\<rparr>"
  | c p device devices where "e = Collect_step c" "passes s c = Some p"
      "cpc p = C_loop (device # devices)"
      "s' = s\<lparr>passes := (passes s)(c \<mapsto>
         p\<lparr>cpc := C_loop devices, visited := visited p @ [device]\<rparr>)\<rparr>"
  | c p where "e = Collect_step c" "passes s c = Some p" "cpc p = C_loop []"
      "s' = s\<lparr>passes := (passes s)(c \<mapsto> p\<lparr>cpc := C_count\<rparr>)\<rparr>"
  | c p where "e = Collect_step c" "passes s c = Some p" "cpc p = C_count"
      "s' = s\<lparr>passes := (passes s)(c \<mapsto>
         p\<lparr>cpc := C_unlock, counted := Some (length (Devices s))\<rparr>)\<rparr>"
  | c p where "e = Collect_step c" "passes s c = Some p" "cpc p = C_unlock"
      "s' = s\<lparr>mutex := None, passes := (passes s)(c \<mapsto> p\<lparr>cpc := C_done\<rparr>)\<rparr>"
  | baseDevices raidDevices where "e = Rescan_step baseDevices raidDevices"
      "rescan s = Some R_sleep"
      "s' = s\<lparr>rescan := Some (R_lock (scanDevices g f flt baseDevices raidDevices)),
         scans := scans s + 1\<rparr>"
  | baseDevices raidDevices devices where "e = Rescan_step baseDevices raidDevices"
      "rescan s = Some (R_lock devices)" "mutex s = None"
      "s' = s\<lparr>mutex := Some Rescanner, rescan := Some (R_store devices)\<rparr>"
  | baseDevices raidDevices devices where "e = Rescan_step baseDevices raidDevices"
      "rescan s = Some (R_store devices)"
      "s' = s\<lparr>Devices := devices, rescan := Some R_unlock, held := devices # held s\<rparr>"
  | baseDevices raidDevices where "e = Rescan_step baseDevices raidDevices"
      "rescan s = Some R_unlock"
      "s' = s\<lparr>mutex := None, rescan := Some R_sleep\<rparr>"
proof (cases e)
  case (Collect_step c)
  with assms have nxt: "collect_next c s = Some s'" by simp
  show ?thesis
  proof (cases "passes s c")
    case None
    with nxt that(1)[OF Collect_step] show ?thesis
      by (simp add: collect_next_def)
  next
    case (Some p)
    with nxt that(2-7)[OF Collect_step Some] show ?thesis
      by (cases "cpc p") (auto simp: collect_next_def split: list.splits if_splits)
  qed
next
  case (Rescan_step baseDevices raidDevices)
  with assms have nxt: "rescan_next g f flt baseDevices raidDevices s = Some s'" by simp
  from nxt obtain r where r: "rescan s = Some r"
    by (cases "rescan s") (auto simp: rescan_next_def)
  with nxt that(8-11)[OF Rescan_step] show ?thesis
    by (cases r) (auto simp: rescan_next_def split: if_splits)
qed

text \<open>Every step keeps the invariant.\<close>

lemma serialized_step:
  assumes "step g f flt e s = Some s'" and inv: "serialized s"
  shows "serialized s'"
  using assms(1)
proof (cases rule: step_cases)
  case (collect_call c)
  then show ?thesis by (simp add: serialized_call[OF inv])
next
  case (collect_lock c p)
  let ?p' = "p\<lparr>cpc := C_range\<rparr>"
  from serializedD[OF inv collect_lock(2)] collect_lock(3,4)
  have "pass_ok (s\<lparr>mutex := Some (Scrape c), passes := (passes s)(c \<mapsto> ?p')\<rparr>) c ?p'"
    by (simp add: pass_ok_def)
  from serialized_pass_step[OF inv collect_lock(2) this] collect_lock(4,5)
  show ?thesis by simp
next
  case (collect_range c p)
  let ?p' = "p\<lparr>cpc := C_loop (Devices s)\<rparr>"
  from serializedD[OF inv collect_range(2)] collect_range(3)
  have "pass_ok (s\<lparr>mutex := mutex s, passes := (passes s)(c \<mapsto> ?p')\<rparr>) c ?p'"
    by (simp add: pass_ok_def)
  from serialized_pass_step[OF inv collect_range(2) this] collect_range(4)
  show ?thesis by simp
next
  case (collect_body c p device devices)
  let ?p' = "p\<lparr>cpc := C_loop devices, visited := visited p @ [device]\<rparr>"
  from serializedD[OF inv collect_body(2)] collect_body(3)
  have "pass_ok (s\<lparr>mutex := mutex s, passes := (passes s)(c \<mapsto> ?p')\<rparr>) c ?p'"
    by (simp add: pass_ok_def)
  from serialized_pass_step[OF inv collect_body(2) this] collect_body(4)
  show ?thesis by simp
next
  case (collect_exit c p)
  let ?p' = "p\<lparr>cpc := C_count\<rparr>"
  from serializedD[OF inv collect_exit(2)] collect_exit(3)
  have "pass_ok (s\<lparr>mutex := mutex s, passes := (passes s)(c \<mapsto> ?p')\<rparr>) c ?p'"
    by (simp add: pass_ok_def)
  from serialized_pass_step[OF inv collect_exit(2) this] collect_exit(4)
  show ?thesis by simp
next
  case (collect_count c p)
  let ?p' = "p\<lparr>cpc := C_unlock, counted := Some (length (Devices s))\<rparr>"
  from serializedD[OF inv collect_count(2)] collect_count(3)
  have "pass_ok (s\<lparr>mutex := mutex s, passes := (passes s)(c \<mapsto> ?p')\<rparr>) c ?p'"
    by (simp add: pass_ok_def)
  from serialized_pass_step[OF inv collect_count(2) this] collect_count(4)
  show ?thesis by simp
next
  case (collect_unlock c p)
  let ?p' = "p\<lparr>cpc := C_done\<rparr>"
  from serializedD[OF inv collect_unlock(2)] collect_unlock(3) inv
  have ok: "pass_ok (s\<lparr>mutex := None, passes := (passes s)(c \<mapsto> ?p')\<rparr>) c ?p'"
    and "mutex s = Some (Scrape c)"
    by (auto simp: pass_ok_def serialized_def)
  from serialized_pass_step[OF inv collect_unlock(2) ok] this(2) collect_unlock(4)
  show ?thesis by simp
next
  case (rescan_scan baseDevices raidDevices)
  from serialized_rescanD[OF inv rescan_scan(2)]
    serialized_rescan_step[OF inv rescan_scan(2),
      of "R_lock (scanDevices g f flt baseDevices raidDevices)" "mutex s" "Devices s" "held s"
        "scans s + 1"] rescan_scan(3)
  show ?thesis by simp
next
  case (rescan_lock baseDevices raidDevices devices)
  from serialized_rescan_step[OF inv rescan_lock(2),
      of "R_store devices" "Some Rescanner" "Devices s" "held s" "scans s"] rescan_lock(3,4)
  show ?thesis by simp
next
  case (rescan_store baseDevices raidDevices devices)
  from serialized_rescanD[OF inv rescan_store(2)] have m: "mutex s = Some Rescanner" by simp
  then have eq: "s\<lparr>Devices := devices, mutex := Some Rescanner, rescan := Some R_unlock,
      scans := scans s, held := devices # held s\<rparr> =
    s\<lparr>Devices := devices, rescan := Some R_unlock, held := devices # held s\<rparr>"
    by (cases s) simp
  from m serialized_rescan_step[OF inv rescan_store(2),
      of "R_unlock" "Some Rescanner" devices "devices # held s" "scans s"]
  show ?thesis unfolding eq rescan_store(3) by simp
next
  case (rescan_unlock baseDevices raidDevices)
  from serialized_rescanD[OF inv rescan_unlock(2)]
    serialized_rescan_step[OF inv rescan_unlock(2),
      of "R_sleep" "None" "Devices s" "held s" "scans s"] rescan_unlock(3)
  show ?thesis by simp
qed

lemma serialized_main_state: "serialized (main_state g f flt devs interval base raid)"
  by (simp add: serialized_def main_state_def Let_def)

lemma serialized_run:
  "run g f flt es s0 = Some s \<Longrightarrow> serialized s0 \<Longrightarrow> serialized s"
  by (induction es arbitrary: s0) (auto split: option.splits intro: serialized_step)

lemma history_step:
  assumes "step g f flt e s = Some s'" and h: "history_ok g f flt D0 s"
  shows "history_ok g f flt D0 s'"
  using assms(1)
proof (cases rule: step_cases)
  case (rescan_scan baseDevices raidDevices)
  with h show ?thesis by (auto simp: history_ok_def scanned_def)
next
  case (rescan_store baseDevices raidDevices devices)
  with h show ?thesis by (auto simp: history_ok_def dest: in_set_butlastD)
qed (use h in \<open>auto simp: history_ok_def\<close>)

lemma history_main_state:
  "history_ok g f flt (main_devices g f flt devs base raid)
     (main_state g f flt devs interval base raid)"
  by (simp add: history_ok_def main_state_def Let_def)

lemma history_run:
  "run g f flt es s0 = Some s \<Longrightarrow> history_ok g f flt D0 s0 \<Longrightarrow> history_ok g f flt D0 s"
  by (induction es arbitrary: s0) (auto split: option.splits intro: history_step)

text \<open>Without the rescan goroutine no step touches the inventory.\<close>

lemma quiet_step:
  assumes "step g f flt e s = Some s'" "rescan s = None"
  shows "rescan s' = None \<and> Devices s' = Devices s \<and> scans s' = scans s \<and> held s' = held s"
  using assms by (cases rule: step_cases) auto

lemma quiet_run:
  assumes "run g f flt es s0 = Some s" "rescan s0 = None"
  shows "rescan s = None \<and> Devices s = Devices s0 \<and> scans s = scans s0 \<and> held s = held s0"
  using assms
proof (induction es arbitrary: s0)
  case Nil
  then show ?case by simp
next
  case (Cons e es)
  then obtain s1 where 1: "step g f flt e s0 = Some s1" and 2: "run g f flt es s1 = Some s"
    by (auto split: option.splits)
  from quiet_step[OF 1 Cons.prems(2)] Cons.IH[OF 2] show ?case by simp
qed

text \<open>
  The history of the inventory in a run: the values that the goroutine assigns are the
  results of \<^verbatim>\<open>scanDevices\<close> on the listings of its scans, one after the other.
\<close>

lemma stored_from_sleep: "stored_from R_sleep (map sc ls) = map sc (stored ls)"
  by (induction ls rule: stored.induct) simp_all

lemma held_step:
  assumes "step g f flt e s = Some s'" "rescan s = Some pc"
  shows "\<exists>pc'. rescan s' = Some pc' \<and>
     rev (held s') @ stored_from pc' ds =
     rev (held s) @
       stored_from pc (map (\<lambda>(base, raid). scanDevices g f flt base raid) (listings [e]) @ ds)"
  using assms by (cases rule: step_cases) auto

lemma listings_quiet:
  assumes "run g f flt es s0 = Some s" "rescan s0 = None"
  shows "listings es = []"
  using assms
proof (induction es arbitrary: s0)
  case Nil
  then show ?case by simp
next
  case (Cons e es)
  then obtain s1 where 1: "step g f flt e s0 = Some s1" and 2: "run g f flt es s1 = Some s"
    by (auto split: option.splits)
  from quiet_step[OF 1 Cons.prems(2)] Cons.IH[OF 2] have "listings es = []" by simp
  moreover from 1 Cons.prems(2) have "\<exists>c. e = Collect_step c"
    by (cases rule: step_cases) auto
  ultimately show ?case by auto
qed

lemma held_run:
  assumes "run g f flt es s0 = Some s" "rescan s0 = Some pc"
  shows "rev (held s) =
     rev (held s0) @
       stored_from pc (map (\<lambda>(base, raid). scanDevices g f flt base raid) (listings es))"
  using assms
proof (induction es arbitrary: s0 pc)
  case Nil
  then show ?case by simp
next
  case (Cons e es)
  let ?sc = "\<lambda>(base, raid). scanDevices g f flt base raid"
  from Cons.prems obtain s1 where 1: "step g f flt e s0 = Some s1"
    and 2: "run g f flt es s1 = Some s"
    by (auto split: option.splits)
  from held_step[OF 1 Cons.prems(2), of "map ?sc (listings es)"]
  obtain pc' where pc': "rescan s1 = Some pc'"
    and eq: "rev (held s1) @ stored_from pc' (map ?sc (listings es)) =
       rev (held s0) @ stored_from pc (map ?sc (listings [e]) @ map ?sc (listings es))"
    by blast
  have "listings (e # es) = listings [e] @ listings es" by (cases e) simp_all
  with Cons.IH[OF 2 pc'] eq show ?case by simp
qed

lemma held_main:
  assumes "run g f flt es (main_state g f flt devs interval base raid) = Some s"
  shows "held s = rev (main_devices g f flt devs base raid #
           map (\<lambda>(base, raid). scanDevices g f flt base raid) (stored (listings es)))"
proof (cases "rescan_started interval")
  case True
  then have "rescan (main_state g f flt devs interval base raid) = Some R_sleep"
    by (simp add: main_state_def Let_def)
  from held_run[OF assms this]
  have "rev (held s) = main_devices g f flt devs base raid #
           map (\<lambda>(base, raid). scanDevices g f flt base raid) (stored (listings es))"
    by (simp add: stored_from_sleep main_state_def Let_def)
  then show ?thesis by (metis rev_rev_ident)
next
  case False
  then have q: "rescan (main_state g f flt devs interval base raid) = None"
    by (simp add: main_state_def Let_def)
  from listings_quiet[OF assms q] quiet_run[OF assms q] show ?thesis
    by (simp add: main_state_def Let_def)
qed

text \<open>
  The local \<^verbatim>\<open>devices\<close> of the goroutine is the result of \<^verbatim>\<open>scanDevices\<close> on listings of the
  run.
\<close>

lemma stored_subset: "set (stored ls) \<subseteq> set ls"
  by (induction ls rule: stored.induct) auto

lemma pending_step:
  assumes "step g f flt e s = Some s'" "pending (rescan s') = Some devices"
  shows "pending (rescan s) = Some devices \<or>
     (\<exists>(base, raid) \<in> set (listings [e]). devices = scanDevices g f flt base raid)"
  using assms by (cases rule: step_cases) auto

lemma pending_run:
  assumes "run g f flt es s0 = Some s" "pending (rescan s) = Some devices"
  shows "pending (rescan s0) = Some devices \<or>
     (\<exists>(base, raid) \<in> set (listings es). devices = scanDevices g f flt base raid)"
  using assms
proof (induction es arbitrary: s0)
  case Nil
  then show ?case by simp
next
  case (Cons e es)
  from Cons.prems obtain s1 where 1: "step g f flt e s0 = Some s1"
    and 2: "run g f flt es s1 = Some s"
    by (auto split: option.splits)
  have l: "set (listings (e # es)) = set (listings [e]) \<union> set (listings es)"
    by (cases e) simp_all
  from Cons.IH[OF 2 Cons.prems(2)] show ?case
  proof
    assume "pending (rescan s1) = Some devices"
    from pending_step[OF 1 this] l show ?thesis by blast
  next
    assume "\<exists>(base, raid) \<in> set (listings es). devices = scanDevices g f flt base raid"
    with l show ?thesis by blast
  qed
qed

lemma pending_main:
  assumes "run g f flt es (main_state g f flt devs interval base raid) = Some s"
    and "pending (rescan s) = Some devices"
  shows "\<exists>(base, raid) \<in> set (listings es). devices = scanDevices g f flt base raid"
  using pending_run[OF assms] by (auto simp: main_state_def Let_def split: if_splits)

text \<open>While a call of \<^verbatim>\<open>Collect\<close> holds the mutex no step changes the inventory.\<close>

lemma step_Devices:
  assumes "step g f flt e s = Some s'" and inv: "serialized s"
    and p: "passes s c = Some p" "collect_critical (cpc p)"
  shows "Devices s' = Devices s"
  using assms(1)
proof (cases rule: step_cases)
  case (rescan_store baseDevices raidDevices devices)
  from serialized_rescanD[OF inv rescan_store(2)] have "mutex s = Some Rescanner" by simp
  moreover from serializedD[OF inv p(1)] p(2)
  have "mutex s = Some (Scrape c)" by (simp add: pass_ok_def)
  ultimately show ?thesis by simp
qed auto

lemma rescan_started_iff: "rescan_started i \<longleftrightarrow> 1000000000 \<le> sint i"
  by (simp add: rescan_started_def Second_def)

lemma rescan_started_600: "rescan_started (600 * Second)"
  by (simp add: rescan_started_def Second_def)

lemma rescan_started_half: "\<not> rescan_started 500000000"
  by (simp add: rescan_started_def Second_def)

lemma run_start_eq:
  "run_start = \<lparr>Devices = [dev ''sda''], mutex = None, rescan = Some R_sleep,
     passes = (\<lambda>c. None), scans = 1, held = [[dev ''sda'']]\<rparr>"
  by (simp add: run_start_def main_state_def main_devices_def scan_sda_sdb filterDevices_sda
        rescan_started_600 Let_def)

lemma quiet_start_eq:
  "quiet_start = \<lparr>Devices = [dev ''sda''], mutex = None, rescan = None,
     passes = (\<lambda>c. None), scans = 1, held = [[dev ''sda'']]\<rparr>"
  by (simp add: quiet_start_def main_state_def main_devices_def scan_sda_sdb filterDevices_sda
        rescan_started_half Let_def)

lemma prefix_appendD: "xs @ ys = zs \<Longrightarrow> prefix xs zs"
  by auto

lemma run_events_end: "run infoNameAsIs oneDevice noFilter run_events run_start = Some run_end"
  by (simp add: run_events_def run_start_eq run_end_def collect_next_def rescan_next_def
        scan_sda_sdb numeral_2_eq_2)

lemma run_events_stored:
  "stored (listings run_events) = [([entry ''sda'', entry ''sdb''], [])]"
  by (simp add: run_events_def)

lemma quiet_events_end:
  "run infoNameAsIs oneDevice noFilter quiet_events quiet_start = Some quiet_end"
  by (simp add: quiet_events_def quiet_start_eq quiet_end_def collect_next_def)

section \<open>The shared collector: the claims\<close>

text \<open>
  Claim C1. In every run of the program, that is after every interleaving \<open>es\<close> of steps
  of the rescan goroutine and of any number of calls of \<^verbatim>\<open>Collect\<close>: a call that stands
  between its \<^verbatim>\<open>Lock\<close> and its \<^verbatim>\<open>Unlock\<close> holds the mutex, so that no other call does, what it
  has visited and counted is a part of the present value of \<^verbatim>\<open>i.Devices\<close>, the rescan
  goroutine does not stand between its own \<^verbatim>\<open>Lock\<close> and \<^verbatim>\<open>Unlock\<close>, and no step of any
  thread changes \<^verbatim>\<open>i.Devices\<close>; a call that has returned has visited the whole of one value
  \<open>L\<close> that \<^verbatim>\<open>i.Devices\<close> has had and has sent the length of the same \<open>L\<close>. With one
  replacement, of \<open>old\<close> by \<open>new\<close>, it has seen the whole of \<open>old\<close> or the whole of \<open>new\<close>,
  never a mix.
\<close>

theorem collect_sees_one_inventory:
  assumes "run getDiskName formatDevices flt es
      (main_state getDiskName formatDevices flt smartctlDevices smartctlRescanInterval
         baseDevices raidDevices) = Some s"
    and "passes s c = Some p"
  shows "(collect_critical (cpc p) \<longrightarrow>
            mutex s = Some (Scrape c) \<and> prefix (visited p) (Devices s) \<and>
            (counted p = None \<or> counted p = Some (length (Devices s))) \<and>
            (\<forall>r. rescan s = Some r \<longrightarrow> \<not> rescan_critical r) \<and>
            (\<forall>e s'. step getDiskName formatDevices flt e s = Some s' \<longrightarrow>
               Devices s' = Devices s)) \<and>
         (cpc p = C_done \<longrightarrow>
            (\<exists>L \<in> set (held s). visited p = L \<and> counted p = Some (length L))) \<and>
         (cpc p = C_done \<longrightarrow> (\<forall>old new. held s = [new, old] \<longrightarrow>
            visited p = old \<and> counted p = Some (length old) \<or>
            visited p = new \<and> counted p = Some (length new)))"
proof -
  from serialized_run[OF assms(1) serialized_main_state] have inv: "serialized s" .
  from serializedD[OF inv assms(2)] have ok: "pass_ok s c p" .
  have 1: "collect_critical (cpc p) \<longrightarrow>
            mutex s = Some (Scrape c) \<and> prefix (visited p) (Devices s) \<and>
            (counted p = None \<or> counted p = Some (length (Devices s)))"
    using ok by (cases "cpc p") (auto simp: pass_ok_def intro: prefix_appendD)
  have 2: "collect_critical (cpc p) \<longrightarrow>
      (\<forall>e s'. step getDiskName formatDevices flt e s = Some s' \<longrightarrow> Devices s' = Devices s)"
    using step_Devices[OF _ inv assms(2)] by blast
  have 3: "collect_critical (cpc p) \<longrightarrow> (\<forall>r. rescan s = Some r \<longrightarrow> \<not> rescan_critical r)"
    using 1 serialized_rescanD[OF inv] by auto
  have 4: "cpc p = C_done \<longrightarrow>
            (\<exists>L \<in> set (held s). visited p = L \<and> counted p = Some (length L))"
    using ok by (auto simp: pass_ok_def)
  then have 5: "cpc p = C_done \<longrightarrow> (\<forall>old new. held s = [new, old] \<longrightarrow>
            visited p = old \<and> counted p = Some (length old) \<or>
            visited p = new \<and> counted p = Some (length new))"
    by auto
  from 1 2 3 4 5 show ?thesis by blast
qed

text \<open>In the first run the scrape sees the whole of the list that the rescan replaces.\<close>

theorem collect_sees_one_inventory_witness:
  "run infoNameAsIs oneDevice noFilter run_events run_start = Some run_end \<and>
   held run_end = [[dev ''sda'', dev ''sdb''], [dev ''sda'']] \<and>
   passes run_end 0 = Some \<lparr>cpc = C_done, visited = [dev ''sda''], counted = Some 1\<rparr> \<and>
   (\<exists>L \<in> set (held run_end). [dev ''sda''] = L \<and> Some (1::nat) = Some (length L))"
  using collect_sees_one_inventory[of infoNameAsIs oneDevice noFilter run_events "[''sda'']"
      "600 * Second" "[entry ''sda'', entry ''sdb'']" "[]" run_end 0
      "\<lparr>cpc = C_done, visited = [dev ''sda''], counted = Some 1\<rparr>"]
    run_events_end
  by (simp add: run_start_def run_end_def)

text \<open>
  Claim C7. \<^verbatim>\<open>main\<close> starts the rescan goroutine if and only if the rescan interval is at
  least one second, that is 1000000000 nanoseconds. When the interval is smaller, in
  every run the goroutine never exists, \<^verbatim>\<open>scanDevices\<close> has been called once, by \<^verbatim>\<open>main\<close>,
  \<^verbatim>\<open>i.Devices\<close> is the inventory that \<^verbatim>\<open>main\<close> built and has never been replaced, and every
  call of \<^verbatim>\<open>Collect\<close> sees that inventory, the whole of it once it has returned.
\<close>

theorem rescan_needs_one_second:
  assumes "s0 = main_state getDiskName formatDevices flt smartctlDevices smartctlRescanInterval
      baseDevices raidDevices"
  shows "(rescan s0 = Some R_sleep \<longleftrightarrow> 1000000000 \<le> sint smartctlRescanInterval) \<and>
    (rescan s0 = None \<longleftrightarrow> sint smartctlRescanInterval < 1000000000) \<and>
    (sint smartctlRescanInterval < 1000000000 \<longrightarrow>
     run getDiskName formatDevices flt es s0 = Some s \<longrightarrow>
       rescan s = None \<and> scans s = 1 \<and> Devices s = Devices s0 \<and> held s = [Devices s0] \<and>
       (\<forall>c p. passes s c = Some p \<longrightarrow>
          prefix (visited p) (Devices s0) \<and>
          (counted p = None \<or> counted p = Some (length (Devices s0))) \<and>
          (cpc p = C_done \<longrightarrow>
             visited p = Devices s0 \<and> counted p = Some (length (Devices s0)))))"
proof -
  have start: "(rescan s0 = Some R_sleep \<longleftrightarrow> 1000000000 \<le> sint smartctlRescanInterval) \<and>
    (rescan s0 = None \<longleftrightarrow> sint smartctlRescanInterval < 1000000000)"
    by (auto simp: assms main_state_def Let_def rescan_started_iff)
  have s0: "scans s0 = 1" "held s0 = [Devices s0]"
    by (simp_all add: assms main_state_def Let_def)
  have later: "rescan s = None \<and> scans s = 1 \<and> Devices s = Devices s0 \<and>
       held s = [Devices s0] \<and>
       (\<forall>c p. passes s c = Some p \<longrightarrow>
          prefix (visited p) (Devices s0) \<and>
          (counted p = None \<or> counted p = Some (length (Devices s0))) \<and>
          (cpc p = C_done \<longrightarrow>
             visited p = Devices s0 \<and> counted p = Some (length (Devices s0))))"
    if small: "sint smartctlRescanInterval < 1000000000"
      and run: "run getDiskName formatDevices flt es s0 = Some s"
  proof -
    from start small have "rescan s0 = None" by simp
    from quiet_run[OF run this] s0
    have q: "rescan s = None" "scans s = 1" "Devices s = Devices s0" "held s = [Devices s0]"
      by simp_all
    have inv: "serialized s"
      using serialized_run[OF run[unfolded assms] serialized_main_state] .
    have "prefix (visited p) (Devices s0) \<and>
          (counted p = None \<or> counted p = Some (length (Devices s0))) \<and>
          (cpc p = C_done \<longrightarrow>
             visited p = Devices s0 \<and> counted p = Some (length (Devices s0)))"
      if "passes s c = Some p" for c p
      using serializedD[OF inv that] q
      by (cases "cpc p") (auto simp: pass_ok_def intro: prefix_appendD)
    with q show ?thesis by blast
  qed
  from start later show ?thesis by blast
qed

text \<open>The second run, with an interval of half a second.\<close>

theorem rescan_needs_one_second_witness:
  "sint (500000000 :: Duration) < 1000000000 \<and>
   run infoNameAsIs oneDevice noFilter quiet_events quiet_start = Some quiet_end \<and>
   rescan quiet_start = None \<and> Devices quiet_start = [dev ''sda''] \<and>
   Devices quiet_end = [dev ''sda''] \<and> scans quiet_end = 1 \<and>
   passes quiet_end 0 = Some \<lparr>cpc = C_done, visited = [dev ''sda''], counted = Some 1\<rparr>"
  using rescan_needs_one_second[of quiet_start infoNameAsIs oneDevice noFilter "[''sda'']"
      500000000 "[entry ''sda'', entry ''sdb'']" "[]" quiet_events quiet_end]
    quiet_events_end
  by (simp add: quiet_start_def[symmetric] quiet_start_eq quiet_end_def)

text \<open>
  Claim C8. The inventory that \<^verbatim>\<open>main\<close> builds is the result of the first discovery,
  restricted by \<^verbatim>\<open>filterDevices\<close> when the list of explicit devices is not empty. The rescan
  goroutine is started whenever the interval is at least one second, whatever that list
  is. In every run, whatever that list is: the values that \<^verbatim>\<open>i.Devices\<close> has had are the
  inventory of \<^verbatim>\<open>main\<close> and then, for each rescan that has done its assignment, the result
  of \<^verbatim>\<open>scanDevices\<close> as it is on the very listings that this rescan has read; \<^verbatim>\<open>i.Devices\<close> is
  the latest of them; a step that changes \<^verbatim>\<open>i.Devices\<close> sets it to the result of \<^verbatim>\<open>scanDevices\<close>
  on listings that a rescan of the run has read; and a rescan that starts when the
  goroutine sleeps and the mutex is free, and takes its three steps, leaves in \<^verbatim>\<open>i.Devices\<close>
  the result of \<^verbatim>\<open>scanDevices\<close> on its listings. \<^verbatim>\<open>filterDevices\<close> is applied once, at startup.
\<close>

theorem allowlist_only_at_startup:
  assumes "s0 = main_state getDiskName formatDevices flt smartctlDevices smartctlRescanInterval
      baseDevices raidDevices"
  shows "Devices s0 =
      (if smartctlDevices = []
       then scanDevices getDiskName formatDevices flt baseDevices raidDevices
       else filterDevices (scanDevices getDiskName formatDevices flt baseDevices raidDevices)
              smartctlDevices) \<and>
    (1000000000 \<le> sint smartctlRescanInterval \<longrightarrow> rescan s0 = Some R_sleep) \<and>
    (run getDiskName formatDevices flt es s0 = Some s \<longrightarrow>
       held s = rev (Devices s0 #
         map (\<lambda>(base, raid). scanDevices getDiskName formatDevices flt base raid)
           (stored (listings es))) \<and>
       Devices s =
         (if stored (listings es) = [] then Devices s0
          else (\<lambda>(base, raid). scanDevices getDiskName formatDevices flt base raid)
                 (last (stored (listings es)))) \<and>
       held s \<noteq> [] \<and> hd (held s) = Devices s \<and> last (held s) = Devices s0 \<and>
       (\<forall>L \<in> set (butlast (held s)). \<exists>(base, raid) \<in> set (listings es).
          L = scanDevices getDiskName formatDevices flt base raid) \<and>
       (\<forall>e s'. step getDiskName formatDevices flt e s = Some s' \<longrightarrow>
          Devices s' = Devices s \<or>
          (\<exists>(base, raid) \<in> set (listings es).
             Devices s' = scanDevices getDiskName formatDevices flt base raid)) \<and>
       (\<forall>base raid. rescan s = Some R_sleep \<and> mutex s = None \<longrightarrow>
          (\<exists>s'. run getDiskName formatDevices flt
                  [Rescan_step base raid, Rescan_step base raid, Rescan_step base raid] s =
                  Some s' \<and>
                Devices s' = scanDevices getDiskName formatDevices flt base raid)))"
proof -
  let ?sc = "\<lambda>(base, raid). scanDevices getDiskName formatDevices flt base raid"
  have D0: "Devices s0 = main_devices getDiskName formatDevices flt smartctlDevices
      baseDevices raidDevices"
    by (simp add: assms main_state_def Let_def)
  then have 1: "Devices s0 =
      (if smartctlDevices = []
       then scanDevices getDiskName formatDevices flt baseDevices raidDevices
       else filterDevices (scanDevices getDiskName formatDevices flt baseDevices raidDevices)
              smartctlDevices)"
    by (simp add: main_devices_def Let_def)
  have 2: "1000000000 \<le> sint smartctlRescanInterval \<longrightarrow> rescan s0 = Some R_sleep"
    by (simp add: assms main_state_def Let_def rescan_started_iff)
  have 3: "held s = rev (Devices s0 # map ?sc (stored (listings es))) \<and>
       Devices s =
         (if stored (listings es) = [] then Devices s0
          else ?sc (last (stored (listings es)))) \<and>
       held s \<noteq> [] \<and> hd (held s) = Devices s \<and> last (held s) = Devices s0 \<and>
       (\<forall>L \<in> set (butlast (held s)). \<exists>(base, raid) \<in> set (listings es).
          L = scanDevices getDiskName formatDevices flt base raid) \<and>
       (\<forall>e s'. step getDiskName formatDevices flt e s = Some s' \<longrightarrow>
          Devices s' = Devices s \<or>
          (\<exists>(base, raid) \<in> set (listings es).
             Devices s' = scanDevices getDiskName formatDevices flt base raid)) \<and>
       (\<forall>base raid. rescan s = Some R_sleep \<and> mutex s = None \<longrightarrow>
          (\<exists>s'. run getDiskName formatDevices flt
                  [Rescan_step base raid, Rescan_step base raid, Rescan_step base raid] s =
                  Some s' \<and>
                Devices s' = scanDevices getDiskName formatDevices flt base raid))"
    if run: "run getDiskName formatDevices flt es s0 = Some s"
  proof -
    have h: "history_ok getDiskName formatDevices flt (Devices s0) s"
      using history_run[OF run[unfolded assms] history_main_state] D0 by simp
    have hist: "held s = rev (Devices s0 # map ?sc (stored (listings es)))"
      using held_main[OF run[unfolded assms]] D0 by simp
    from h have "Devices s = hd (held s)" by (simp add: history_ok_def)
    with hist have now: "Devices s =
         (if stored (listings es) = [] then Devices s0
          else ?sc (last (stored (listings es))))"
      by (simp add: hd_rev last_map)
    from hist have "butlast (held s) = rev (map ?sc (stored (listings es)))"
      by simp
    then have old: "\<forall>L \<in> set (butlast (held s)). \<exists>(base, raid) \<in> set (listings es).
          L = scanDevices getDiskName formatDevices flt base raid"
      using stored_subset[of "listings es"] by auto
    have nxt: "Devices s' = Devices s \<or>
          (\<exists>(base, raid) \<in> set (listings es).
             Devices s' = scanDevices getDiskName formatDevices flt base raid)"
      if st: "step getDiskName formatDevices flt e s = Some s'" for e s'
      using st
    proof (cases rule: step_cases)
      case (rescan_store b r devices)
      then have "pending (rescan s) = Some devices" by simp
      from pending_main[OF run[unfolded assms] this] rescan_store show ?thesis by simp
    qed auto
    from h have "held s \<noteq> [] \<and> hd (held s) = Devices s \<and> last (held s) = Devices s0"
      by (simp add: history_ok_def)
    moreover have "\<exists>s'. run getDiskName formatDevices flt
                  [Rescan_step base raid, Rescan_step base raid, Rescan_step base raid] s =
                  Some s' \<and>
                Devices s' = scanDevices getDiskName formatDevices flt base raid"
      if "rescan s = Some R_sleep" "mutex s = None" for base raid
      using that by (simp add: rescan_next_def)
    ultimately show ?thesis using hist now old nxt by blast
  qed
  from 1 2 3 show ?thesis by blast
qed

text \<open>
  In the first run the list of explicit devices is \<^verbatim>\<open>sda\<close>: the inventory of \<^verbatim>\<open>main\<close> is
  \<^verbatim>\<open>sda\<close> alone, and after the rescan it is the whole discovery result, \<^verbatim>\<open>sda\<close> and \<^verbatim>\<open>sdb\<close>,
  which is not what \<^verbatim>\<open>filterDevices\<close> would leave of it.
\<close>

theorem allowlist_only_at_startup_witness:
  "run infoNameAsIs oneDevice noFilter run_events run_start = Some run_end \<and>
   Devices run_start = filterDevices [dev ''sda'', dev ''sdb''] [''sda''] \<and>
   Devices run_start = [dev ''sda''] \<and>
   stored (listings run_events) = [([entry ''sda'', entry ''sdb''], [])] \<and>
   held run_end =
     [scanDevices infoNameAsIs oneDevice noFilter [entry ''sda'', entry ''sdb''] [],
      Devices run_start] \<and>
   Devices run_end =
     scanDevices infoNameAsIs oneDevice noFilter [entry ''sda'', entry ''sdb''] [] \<and>
   Devices run_end = [dev ''sda'', dev ''sdb''] \<and>
   Devices run_end \<noteq>
     filterDevices (scanDevices infoNameAsIs oneDevice noFilter
       [entry ''sda'', entry ''sdb''] []) [''sda''] \<and>
   hd (held run_end) = [dev ''sda'', dev ''sdb''] \<and>
   last (held run_end) = Devices run_start"
  using allowlist_only_at_startup[of run_start infoNameAsIs oneDevice noFilter "[''sda'']"
      "600 * Second" "[entry ''sda'', entry ''sdb'']" "[]" run_events run_end]
    run_events_end
  by (simp add: run_start_def[symmetric] run_start_eq run_end_def filterDevices_sda
        run_events_stored scan_sda_sdb)

end
